theory Spec2Isabelle
  imports Complex_Main "HOL-Library.Multiset"
begin

section \<open>Scalars, vectors and matrices\<close>

text \<open>
  The solver is a template over its \<open>Scalar\<close> type. The embedding instantiates
  it with the real numbers: arithmetic is exact, rounding is not modelled. A vector
  (\<open>Eigen::Matrix<Scalar, Dynamic, 1>\<close>) is the list of its coefficients; a matrix
  is the list of its columns, as in Eigen's column-major storage, so \<open>A ! j ! i\<close> is
  the coefficient \<open>A(i, j)\<close>. Indices and sizes are natural numbers: every theorem
  below states the index ranges it needs, since an index out of range is undefined
  behaviour in the source and has no counterpart here.

  Division is the division of the real numbers. HOL makes it total with \<open>x / 0 = 0\<close>,
  whereas a floating-point division by zero gives a NaN or an infinity, which is not a
  real number. The theorems on the factorization step and on the final sort of the
  shift-and-invert solver therefore assume that the divisor is not zero; the division
  by a zero residual norm is the subject of a section of its own.
\<close>

type_synonym vec = "real list"
type_synonym mat = "real list list"

definition vec_norm :: "vec \<Rightarrow> real" where
  \<comment> \<open>\<open>x.norm()\<close>\<close>
  "vec_norm x = sqrt (sum_list (map (\<lambda>a. a * a) x))"

definition dot :: "vec \<Rightarrow> vec \<Rightarrow> real" where
  \<comment> \<open>\<open>x.dot(y)\<close>\<close>
  "dot x y = sum_list (map2 (\<lambda>a b. a * b) x y)"

definition vec_div :: "vec \<Rightarrow> real \<Rightarrow> vec" where
  \<comment> \<open>\<open>x / c\<close>\<close>
  "vec_div x c = map (\<lambda>a. a / c) x"

definition vec_scale :: "vec \<Rightarrow> real \<Rightarrow> vec" where
  \<comment> \<open>\<open>x * c\<close>\<close>
  "vec_scale x c = map (\<lambda>a. a * c) x"

definition vec_sub :: "vec \<Rightarrow> vec \<Rightarrow> vec" where
  \<comment> \<open>\<open>x - y\<close>\<close>
  "vec_sub x y = map2 (\<lambda>a b. a - b) x y"

definition vec_normalize :: "vec \<Rightarrow> vec" where
  \<comment> \<open>\<open>x.normalize()\<close>\<close>
  "vec_normalize x = vec_div x (vec_norm x)"

definition leftCols :: "nat \<Rightarrow> mat \<Rightarrow> mat" where
  \<comment> \<open>\<open>A.leftCols(k)\<close>\<close>
  "leftCols k A = take k A"

definition adjoint_times :: "mat \<Rightarrow> vec \<Rightarrow> vec" where
  \<comment> \<open>\<open>A.adjoint() * x\<close>: one dot product per column of \<open>A\<close>\<close>
  "adjoint_times A x = map (\<lambda>c. dot c x) A"

definition times_vec :: "nat \<Rightarrow> mat \<Rightarrow> vec \<Rightarrow> vec" where
  \<comment> \<open>\<open>A * x\<close> for a matrix of \<open>r\<close> rows\<close>
  "times_vec r A x = map (\<lambda>i. sum_list (map2 (\<lambda>c xj. c ! i * xj) A x)) [0..<r]"

definition times_mat :: "nat \<Rightarrow> mat \<Rightarrow> mat \<Rightarrow> mat" where
  \<comment> \<open>\<open>A * B\<close> for a matrix \<open>A\<close> of \<open>r\<close> rows\<close>
  "times_mat r A B = map (times_vec r A) B"

definition adjoint_times_mat :: "mat \<Rightarrow> mat \<Rightarrow> mat" where
  \<comment> \<open>\<open>A.adjoint() * B\<close>\<close>
  "adjoint_times_mat A B = map (adjoint_times A) B"

definition Identity :: "nat \<Rightarrow> mat" where
  \<comment> \<open>\<open>Matrix::Identity(n, n)\<close>\<close>
  "Identity n = map (\<lambda>j. map (\<lambda>i. if i = j then 1 else 0) [0..<n]) [0..<n]"

definition mat_scale :: "real \<Rightarrow> mat \<Rightarrow> mat" where
  \<comment> \<open>\<open>c * A\<close>\<close>
  "mat_scale c A = map (map (\<lambda>a. c * a)) A"

definition mat_sub :: "mat \<Rightarrow> mat \<Rightarrow> mat" where
  \<comment> \<open>\<open>A - B\<close>\<close>
  "mat_sub A B = map2 vec_sub A B"

definition set_coeff :: "nat \<Rightarrow> nat \<Rightarrow> real \<Rightarrow> mat \<Rightarrow> mat" where
  \<comment> \<open>\<open>A(i, j) = a\<close>\<close>
  "set_coeff i j a A = A[j := (A ! j)[i := a]]"

definition row_setZero :: "nat \<Rightarrow> nat \<Rightarrow> mat \<Rightarrow> mat" where
  \<comment> \<open>\<open>A.block(i, 0, 1, k).setZero()\<close>: row \<open>i\<close>, columns \<open>0\<close> to \<open>k - 1\<close>\<close>
  "row_setZero i k A = map (\<lambda>j. if j < k then (A ! j)[i := 0] else A ! j) [0..<length A]"

definition col_assign :: "nat \<Rightarrow> nat \<Rightarrow> vec \<Rightarrow> mat \<Rightarrow> mat" where
  \<comment> \<open>\<open>A.block(0, j, k, 1) = h\<close>: column \<open>j\<close>, rows \<open>0\<close> to \<open>k - 1\<close>\<close>
  "col_assign j k h A = A[j := take k h @ drop k (A ! j)]"

section \<open>Loops and sorting\<close>

text \<open>A counted loop \<open>for (int i = from; i < to; i++) body\<close> on the state \<open>a\<close>.\<close>

function for_loop :: "nat \<Rightarrow> nat \<Rightarrow> (nat \<Rightarrow> 'a \<Rightarrow> 'a) \<Rightarrow> 'a \<Rightarrow> 'a" where
  "for_loop i to body a = (if i < to then for_loop (i + 1) to body (body i a) else a)"
  by pat_completeness auto
termination
  by (relation "measure (\<lambda>(i, to, body, a). to - i)") auto

declare for_loop.simps [simp del]

text \<open>
  \<open>std::sort(first, last, comp)\<close>: the order of equivalent elements is unspecified in
  C++; the model is an insertion sort, which keeps them in their original order.
\<close>

fun insort_by :: "('a \<Rightarrow> 'a \<Rightarrow> bool) \<Rightarrow> 'a \<Rightarrow> 'a list \<Rightarrow> 'a list" where
  "insort_by lt x [] = [x]"
| "insort_by lt x (y # ys) = (if lt y x then y # insort_by lt x ys else x # y # ys)"

definition std_sort :: "('a \<Rightarrow> 'a \<Rightarrow> bool) \<Rightarrow> 'a list \<Rightarrow> 'a list" where
  "std_sort lt xs = foldr (insort_by lt) xs []"

definition std_swap :: "nat \<Rightarrow> nat \<Rightarrow> 'a list \<Rightarrow> 'a list" where
  \<comment> \<open>\<open>std::swap(xs[i], xs[j])\<close>\<close>
  "std_swap i j xs = xs[i := xs ! j, j := xs ! i]"

section \<open>What the solver takes from outside\<close>

datatype selection_rule = LARGEST_MAGN | LARGEST_ALGE | SMALLEST_ALGE | BOTH_ENDS

type_synonym SortPair = "real \<times> nat"

text \<open>
  Modelled from the spec: \<open>EigenvalueComparator\<close> of \<open>SelectionRule.h\<close>, which
  is not among the sources. The spec lists the rules (largest magnitude,
  largest/smallest algebraic value, both extremes); the solver's comments say that the
  final sort by largest magnitude is in decreasing magnitude order and that both ends
  sorts as largest algebraic does.
\<close>

fun EigenvalueComparator :: "selection_rule \<Rightarrow> SortPair \<Rightarrow> SortPair \<Rightarrow> bool" where
  "EigenvalueComparator LARGEST_MAGN v1 v2 = (\<bar>fst v1\<bar> > \<bar>fst v2\<bar>)"
| "EigenvalueComparator LARGEST_ALGE v1 v2 = (fst v1 > fst v2)"
| "EigenvalueComparator SMALLEST_ALGE v1 v2 = (fst v1 < fst v2)"
| "EigenvalueComparator BOTH_ENDS v1 v2 = (fst v1 > fst v2)"

text \<open>
  The operator interface (\<open>MatOp.h\<close>) and the routines of Eigen are outside the
  sources; the solver is verified for any of them. \<open>'o\<close> is the state of the
  operator object the solver points to.
\<close>

record 'o env =
  op_rows :: "'o \<Rightarrow> nat"
  op_prod :: "'o \<Rightarrow> vec \<Rightarrow> vec"
  op_set_shift :: "'o \<Rightarrow> real \<Rightarrow> 'o"
  op_shift_solve :: "'o \<Rightarrow> vec \<Rightarrow> vec"
  eig_eigenvalues :: "mat \<Rightarrow> vec"
  eig_eigenvectors :: "mat \<Rightarrow> mat"
  householderQ :: "mat \<Rightarrow> mat"
  epsilon :: real
  uninit :: real
  uninit_flag :: bool

section \<open>The solver\<close>

text \<open>
  \<open>kind\<close> is the dynamic class of the object, which the two virtual functions
  dispatch on; the derived class carries \<open>sigma\<close>. \<open>rule\<close> is the template
  parameter \<open>SelectionRule\<close>.
\<close>

datatype solver_kind = SymEigsSolver_kind | SymEigsShiftSolver_kind (sigma: real)

record 'o solver =
  kind :: solver_kind
  rule :: selection_rule
  op :: 'o
  dim_n :: nat
  nev :: nat
  ncv :: nat
  fac_V :: mat
  fac_H :: mat
  fac_f :: vec
  ritz_val :: vec
  ritz_vec :: mat
  ritz_conv :: "bool list"
  prec :: real

definition matrix_operation :: "'o env \<Rightarrow> 'o solver \<Rightarrow> vec \<Rightarrow> vec" where
  "matrix_operation E s x_in =
     (case kind s of
        SymEigsSolver_kind \<Rightarrow> op_prod E (op s) x_in
      | SymEigsShiftSolver_kind sg \<Rightarrow> op_shift_solve E (op s) x_in)"

subsection \<open>Arnoldi factorization\<close>

definition factorize_step :: "'o env \<Rightarrow> nat \<Rightarrow> 'o solver \<Rightarrow> 'o solver" where
  \<comment> \<open>the body of the loop of \<open>factorize_from\<close>, for a residual with a norm other than
      zero; \<open>factorize_step_opt\<close> below covers the zero norm\<close>
  "factorize_step E i s =
     (let beta = vec_norm (fac_f s);
          v = vec_div (fac_f s) beta;
          V1 = (fac_V s)[i := v];
          H1 = row_setZero i i (fac_H s);
          H2 = set_coeff i (i - 1) beta H1;
          w = matrix_operation E s v;
          h = adjoint_times (leftCols (i + 1) V1) w;
          f1 = vec_sub w (times_vec (dim_n s) (leftCols (i + 1) V1) h);
          H3 = col_assign i (i + 1) h H2
      in s\<lparr>fac_V := V1, fac_H := H3, fac_f := f1\<rparr>)"

definition factorize_from :: "'o env \<Rightarrow> nat \<Rightarrow> nat \<Rightarrow> vec \<Rightarrow> 'o solver \<Rightarrow> 'o solver" where
  "factorize_from E from_k to_m fk s =
     (if to_m \<le> from_k then s
      else for_loop from_k to_m (factorize_step E) (s\<lparr>fac_f := fk\<rparr>))"

text \<open>
  The source's loop is \<open>for (int i = from_k; i <= to_m - 1; i++)\<close>, on integers;
  \<open>i < to_m\<close> is the same condition.
\<close>

subsection \<open>Ritz pairs\<close>

definition swap_step :: "nat \<Rightarrow> nat \<Rightarrow> nat \<Rightarrow> SortPair list \<Rightarrow> SortPair list" where
  \<comment> \<open>\<open>std::swap(pairs[offset + i], pairs[ncv - 1 - i])\<close>\<close>
  "swap_step offset m i pairs = std_swap (offset + i) (m - 1 - i) pairs"

definition retrieve_ritzpair :: "'o env \<Rightarrow> 'o solver \<Rightarrow> 'o solver" where
  "retrieve_ritzpair E s =
     (let evals = eig_eigenvalues E (fac_H s);
          evecs = eig_eigenvectors E (fac_H s);
          pairs0 = map (\<lambda>i. (evals ! i, i)) [0..<ncv s];
          pairs1 = std_sort (EigenvalueComparator (rule s)) pairs0;
          pairs2 =
            (if rule s = BOTH_ENDS
             then (let offset = (nev s + 1) div 2
                   in for_loop 0 (nev s - offset) (swap_step offset (ncv s)) pairs1)
             else pairs1);
          val1 = for_loop 0 (ncv s) (\<lambda>i rv. rv[i := fst (pairs2 ! i)]) (ritz_val s);
          vec1 = for_loop 0 (nev s) (\<lambda>i rm. rm[i := evecs ! snd (pairs2 ! i)]) (ritz_vec s)
      in s\<lparr>ritz_val := val1, ritz_vec := vec1\<rparr>)"

definition sort_step ::
  "'o solver \<Rightarrow> SortPair list \<Rightarrow> nat \<Rightarrow> vec \<times> mat \<times> bool list \<Rightarrow> vec \<times> mat \<times> bool list" where
  \<comment> \<open>the body of the last loop of \<open>sort_ritzpair\<close>\<close>
  "sort_step s pairs i st =
     (case st of (rv, new_ritz_vec, new_ritz_conv) \<Rightarrow>
        (rv[i := fst (pairs ! i)],
         new_ritz_vec[i := ritz_vec s ! snd (pairs ! i)],
         new_ritz_conv[i := ritz_conv s ! snd (pairs ! i)]))"

definition base_sort_ritzpair :: "'o env \<Rightarrow> 'o solver \<Rightarrow> 'o solver" where
  \<comment> \<open>\<open>SymEigsSolver::sort_ritzpair\<close>\<close>
  "base_sort_ritzpair E s =
     (let pairs0 = map (\<lambda>i. (ritz_val s ! i, i)) [0..<nev s];
          pairs = std_sort (EigenvalueComparator LARGEST_MAGN) pairs0;
          new_ritz_vec = replicate (nev s) (replicate (ncv s) (uninit E));
          new_ritz_conv = replicate (nev s) (uninit_flag E)
      in case for_loop 0 (nev s) (sort_step s pairs) (ritz_val s, new_ritz_vec, new_ritz_conv)
         of (rv, rm, rc) \<Rightarrow> s\<lparr>ritz_val := rv, ritz_vec := rm, ritz_conv := rc\<rparr>)"

definition sort_ritzpair :: "'o env \<Rightarrow> 'o solver \<Rightarrow> 'o solver" where
  \<comment> \<open>the virtual \<open>sort_ritzpair\<close>: the derived class transforms the Ritz values first.
      For a Ritz value \<open>0\<close> the source's \<open>1 / x\<close> is an infinity, not the \<open>0\<close> of HOL.\<close>
  "sort_ritzpair E s =
     (case kind s of
        SymEigsSolver_kind \<Rightarrow> base_sort_ritzpair E s
      | SymEigsShiftSolver_kind sg \<Rightarrow>
          (let ritz_val_org = map (\<lambda>x. 1 / x + sg) (take (nev s) (ritz_val s))
           in base_sort_ritzpair E
                (s\<lparr>ritz_val := ritz_val_org @ drop (nev s) (ritz_val s)\<rparr>)))"

subsection \<open>Restart and convergence\<close>

definition restart_step ::
  "'o env \<Rightarrow> nat \<Rightarrow> 'o solver \<times> vec \<Rightarrow> 'o solver \<times> vec" where
  \<comment> \<open>the body of the loop of \<open>restart\<close>, on the solver and the local \<open>em\<close>\<close>
  "restart_step E i st =
     (case st of (s, em) \<Rightarrow>
        (let Q = householderQ E
                   (mat_sub (fac_H s) (mat_scale (ritz_val s ! i) (Identity (ncv s))));
             V1 = times_mat (dim_n s) (fac_V s) Q;
             H1 = times_mat (ncv s) (fac_H s) Q;
             H2 = adjoint_times_mat Q H1;
             em1 = adjoint_times Q em
         in (s\<lparr>fac_V := V1, fac_H := H2\<rparr>, em1)))"

definition restart :: "'o env \<Rightarrow> nat \<Rightarrow> 'o solver \<Rightarrow> 'o solver" where
  "restart E k s =
     (if k \<ge> ncv s then s
      else
        (let em = (replicate (ncv s) 0)[ncv s - 1 := 1]
         in case for_loop k (ncv s) (restart_step E) (s, em) of (s1, em1) \<Rightarrow>
              (let fk = vec_scale (fac_f s1) (em1 ! (k - 1));
                   s2 = factorize_from E k (ncv s1) fk s1
               in retrieve_ritzpair E s2)))"

definition converged :: "real \<Rightarrow> 'o solver \<Rightarrow> bool \<times> 'o solver" where
  \<comment> \<open>returns the result and the solver with its flags set\<close>
  "converged tol s =
     (let bound = map (\<lambda>th. tol * max \<bar>th\<bar> (prec s)) (take (nev s) (ritz_val s));
          resid = map (\<lambda>c. \<bar>last c\<bar> * vec_norm (fac_f s)) (ritz_vec s);
          conv = map2 (\<lambda>r b. r < b) resid bound
      in (list_all (\<lambda>b. b) conv, s\<lparr>ritz_conv := conv\<rparr>))"

subsection \<open>Construction and initialization\<close>

datatype error = invalid_argument

definition SymEigsSolver ::
  "'o env \<Rightarrow> selection_rule \<Rightarrow> 'o \<Rightarrow> nat \<Rightarrow> nat \<Rightarrow> error + 'o solver" where
  \<comment> \<open>the constructor: it has no \<open>throw\<close>; Eigen leaves the coefficients uninitialized.
      The \<open>int\<close> arguments of the source are natural numbers here: a negative size is
      outside the model.\<close>
  "SymEigsSolver E r op_in nev_in ncv_in =
     (let n = op_rows E op_in
      in Inr \<lparr>kind = SymEigsSolver_kind, rule = r, op = op_in,
              dim_n = n, nev = nev_in, ncv = ncv_in,
              fac_V = replicate ncv_in (replicate n (uninit E)),
              fac_H = replicate ncv_in (replicate ncv_in (uninit E)),
              fac_f = replicate n (uninit E),
              ritz_val = replicate ncv_in (uninit E),
              ritz_vec = replicate nev_in (replicate ncv_in (uninit E)),
              ritz_conv = replicate nev_in (uninit_flag E),
              prec = epsilon E powr (2 / 3)\<rparr>)"

definition SymEigsShiftSolver ::
  "'o env \<Rightarrow> selection_rule \<Rightarrow> 'o \<Rightarrow> nat \<Rightarrow> nat \<Rightarrow> real \<Rightarrow> error + 'o solver" where
  \<comment> \<open>the derived constructor: the base constructor, then \<open>op_shift->set_shift(sigma)\<close>\<close>
  "SymEigsShiftSolver E r op_in nev_in ncv_in sigma_in =
     (case SymEigsSolver E r op_in nev_in ncv_in of
        Inl e \<Rightarrow> Inl e
      | Inr s \<Rightarrow>
          Inr (s\<lparr>kind := SymEigsShiftSolver_kind sigma_in,
                 op := op_set_shift E (op s) sigma_in\<rparr>))"

definition vec_setZero :: "vec \<Rightarrow> vec" where
  "vec_setZero x = map (\<lambda>a. 0) x"

definition mat_setZero :: "mat \<Rightarrow> mat" where
  "mat_setZero A = map vec_setZero A"

definition init :: "'o env \<Rightarrow> vec \<Rightarrow> 'o solver \<Rightarrow> 'o solver" where
  "init E init_coef s =
     (let s0 = s\<lparr>fac_V := mat_setZero (fac_V s), fac_H := mat_setZero (fac_H s),
                 fac_f := vec_setZero (fac_f s), ritz_val := vec_setZero (ritz_val s),
                 ritz_vec := mat_setZero (ritz_vec s),
                 ritz_conv := map (\<lambda>b. False) (ritz_conv s)\<rparr>;
          v = vec_normalize (matrix_operation E s0 init_coef);
          w = matrix_operation E s0 v;
          H1 = set_coeff 0 0 (dot v w) (fac_H s0);
          f1 = vec_sub w (vec_scale v (H1 ! 0 ! 0));
          V1 = (fac_V s0)[0 := v]
      in s0\<lparr>fac_H := H1, fac_f := f1, fac_V := V1\<rparr>)"

subsection \<open>The driving loop\<close>

text \<open>
  The restart loop of \<open>compute\<close>, from the counter \<open>i\<close>: it returns the value of
  \<open>i\<close> on leaving the loop, by \<open>break\<close> or by \<open>i < maxit\<close> failing.
\<close>

function compute_loop ::
  "'o env \<Rightarrow> int \<Rightarrow> real \<Rightarrow> int \<Rightarrow> 'o solver \<Rightarrow> int \<times> 'o solver" where
  "compute_loop E maxit tol i s =
     (if i < maxit
      then (case converged tol s of (c, s1) \<Rightarrow>
              if c then (i, s1)
              else compute_loop E maxit tol (i + 1) (restart E (nev s1) s1))
      else (i, s))"
  by pat_completeness auto
termination
  by (relation "measure (\<lambda>(E, maxit, tol, i, s). nat (maxit - i))") auto

declare compute_loop.simps [simp del]

definition compute :: "'o env \<Rightarrow> int \<Rightarrow> real \<Rightarrow> 'o solver \<Rightarrow> int \<times> 'o solver" where
  "compute E maxit tol s =
     (let s1 = factorize_from E 1 (ncv s) (fac_f s) s;
          s2 = retrieve_ritzpair E s1
      in case compute_loop E maxit tol 0 s2 of (i, s3) \<Rightarrow>
           (i + 1, sort_ritzpair E s3))"

subsection \<open>Results\<close>

definition count_conv :: "bool list \<Rightarrow> nat" where
  \<comment> \<open>\<open>ritz_conv.cast<int>().sum()\<close>\<close>
  "count_conv bs = sum_list (map (\<lambda>b. if b then 1 else 0) bs)"

definition eigenvalues :: "'o env \<Rightarrow> 'o solver \<Rightarrow> vec" where
  "eigenvalues E s =
     (let nconv = count_conv (ritz_conv s);
          res = replicate nconv (uninit E)
      in if nconv = 0 then res
         else fst (for_loop 0 (nev s)
                (\<lambda>i (res, j). if ritz_conv s ! i then (res[j := ritz_val s ! i], j + 1)
                               else (res, j))
                (res, 0)))"

definition eigenvectors :: "'o env \<Rightarrow> 'o solver \<Rightarrow> mat" where
  "eigenvectors E s =
     (let nconv = count_conv (ritz_conv s);
          res = replicate nconv (replicate (dim_n s) (uninit E))
      in if nconv = 0 then res
         else
           (let ritz_vec_conv = replicate nconv (replicate (ncv s) (uninit E))
            in times_mat (dim_n s) (fac_V s)
                 (fst (for_loop 0 (nev s)
                    (\<lambda>i (rvc, j). if ritz_conv s ! i then (rvc[j := ritz_vec s ! i], j + 1)
                                   else (rvc, j))
                    (ritz_vec_conv, 0)))))"

subsection \<open>The dimensions the constructor sets up\<close>

definition dims_ok :: "'o solver \<Rightarrow> bool" where
  "dims_ok s \<longleftrightarrow>
     length (fac_V s) = ncv s \<and> list_all (\<lambda>c. length c = dim_n s) (fac_V s) \<and>
     length (fac_H s) = ncv s \<and> list_all (\<lambda>c. length c = ncv s) (fac_H s) \<and>
     length (fac_f s) = dim_n s \<and> length (ritz_val s) = ncv s \<and>
     length (ritz_vec s) = nev s \<and> list_all (\<lambda>c. length c = ncv s) (ritz_vec s) \<and>
     length (ritz_conv s) = nev s"

section \<open>The restart in the words of its specification\<close>



section \<open>The both-ends reordering, position by position\<close>

text \<open>
  After the first \<open>k\<close> swaps of \<open>retrieve_ritzpair\<close>, the entry at position \<open>p\<close>
  comes from position \<open>swapped_from offset m k p\<close> of the sorted list of length \<open>m\<close>:
  swap \<open>i\<close> exchanges the positions \<open>offset + i\<close> and \<open>m - 1 - i\<close>, which mirror
  each other, so a position is mirrored when exactly one of the two swaps that touch
  it has run.
\<close>

definition swapped_from :: "nat \<Rightarrow> nat \<Rightarrow> nat \<Rightarrow> nat \<Rightarrow> nat" where
  "swapped_from offset m k p =
     (if offset \<le> p \<and> p < m \<and> ((p - offset < k) \<noteq> (m - 1 - p < k))
      then offset + (m - 1 - p) else p)"

text \<open>
  The local \<open>pairs\<close> of \<open>retrieve_ritzpair\<close> after \<open>std::sort\<close>, and after the
  swaps for both ends.
\<close>

definition sorted_pairs :: "'o env \<Rightarrow> 'o solver \<Rightarrow> SortPair list" where
  "sorted_pairs E s =
     std_sort (EigenvalueComparator (rule s))
       (map (\<lambda>i. (eig_eigenvalues E (fac_H s) ! i, i)) [0..<ncv s])"

definition final_pairs :: "'o env \<Rightarrow> 'o solver \<Rightarrow> SortPair list" where
  "final_pairs E s =
     (if rule s = BOTH_ENDS
      then foldl (\<lambda>xs i. swap_step ((nev s + 1) div 2) (ncv s) i xs) (sorted_pairs E s)
             [0..<nev s - (nev s + 1) div 2]
      else sorted_pairs E s)"

section \<open>The iteration count in the words of its specification\<close>

text \<open>
  The number of iterations of the restart loop that are performed from the counter
  \<open>i\<close>: every pass that enters the loop body counts, the one that ends the loop by
  \<open>break\<close> included.
\<close>

function iterations_performed :: "'o env \<Rightarrow> int \<Rightarrow> real \<Rightarrow> int \<Rightarrow> 'o solver \<Rightarrow> int" where
  "iterations_performed E maxit tol i s =
     (if i < maxit
      then (case converged tol s of (c, s1) \<Rightarrow>
              if c then 1
              else 1 + iterations_performed E maxit tol (i + 1) (restart E (nev s1) s1))
      else 0)"
  by pat_completeness auto
termination
  by (relation "measure (\<lambda>(E, maxit, tol, i, s). nat (maxit - i))") auto

declare iterations_performed.simps [simp del]

section \<open>The division by the residual norm\<close>

text \<open>
  The quotient \<open>f / \<parallel>f\<parallel>\<close> of the factorization step is a floating-point division in
  the source, executed on every pass of the loop. For \<open>\<parallel>f\<parallel> \<noteq> 0\<close> it is the quotient
  of the real numbers. For \<open>\<parallel>f\<parallel> = 0\<close> the residual is the zero vector and every
  coefficient of the quotient is \<open>0 / 0\<close>: a NaN, which the rest of the step copies
  into \<open>V\<close>, \<open>H\<close> and \<open>f\<close>. It has no real value, and \<open>factorize_step\<close>, with
  the total division of HOL, does not describe the source there.

  \<open>vec_quotient\<close> is the division with that case set apart. \<open>factorize_step_opt\<close>,
  \<open>factorize_from_opt\<close> and \<open>restart_opt\<close> are the loop body, \<open>factorize_from\<close>
  and \<open>restart\<close> of the source with it. Their value is \<open>None\<close> from the first division
  by a zero norm on: the source goes on with coefficients that are not numbers, which
  the embedding does not follow.
\<close>

definition vec_quotient :: "vec \<Rightarrow> real \<Rightarrow> vec option" where
  \<comment> \<open>\<open>x / c\<close> in floating point: no real value for \<open>c = 0\<close>\<close>
  "vec_quotient x c = (if c = 0 then None else Some (vec_div x c))"

definition factorize_step_opt :: "'o env \<Rightarrow> nat \<Rightarrow> 'o solver \<Rightarrow> 'o solver option" where
  \<comment> \<open>the body of the loop of \<open>factorize_from\<close>\<close>
  "factorize_step_opt E i s =
     (let beta = vec_norm (fac_f s)
      in case vec_quotient (fac_f s) beta of
           None \<Rightarrow> None
         | Some v \<Rightarrow>
             (let V1 = (fac_V s)[i := v];
                  H1 = row_setZero i i (fac_H s);
                  H2 = set_coeff i (i - 1) beta H1;
                  w = matrix_operation E s v;
                  h = adjoint_times (leftCols (i + 1) V1) w;
                  f1 = vec_sub w (times_vec (dim_n s) (leftCols (i + 1) V1) h);
                  H3 = col_assign i (i + 1) h H2
              in Some (s\<lparr>fac_V := V1, fac_H := H3, fac_f := f1\<rparr>)))"



section \<open>A concrete instance\<close>

text \<open>
  A diagonal operator with its shift, and the values of Eigen's routines on diagonal
  matrices: the eigenvalues of a diagonal matrix are its diagonal, its eigenvectors the
  unit vectors, and the orthogonal factor of its QR factorization is the identity.
  The closed instances of the theorems below are stated on it.
\<close>

record diag_op =
  entries :: vec
  shift :: real

definition diag_env :: "diag_op env" where
  "diag_env =
     \<lparr>op_rows = (\<lambda>d. length (entries d)),
      op_prod = (\<lambda>d x. map2 (\<lambda>a b. a * b) (entries d) x),
      op_set_shift = (\<lambda>d sg. d\<lparr>shift := sg\<rparr>),
      op_shift_solve = (\<lambda>d x. map2 (\<lambda>a b. b / (a - shift d)) (entries d) x),
      eig_eigenvalues = (\<lambda>H. map (\<lambda>j. H ! j ! j) [0..<length H]),
      eig_eigenvectors = (\<lambda>H. Identity (length H)),
      householderQ = (\<lambda>M. Identity (length M)),
      epsilon = 1 / 2 ^ 52,
      uninit = 0,
      uninit_flag = False\<rparr>"

text \<open>
  The operator \<open>diag(50, 25, 7)\<close> and the solver for \<open>nev = 1\<close>, \<open>ncv = 2\<close>
  after \<open>init\<close> with the seed \<open>(3/50, 4/25, 0)\<close>.
\<close>

definition ex_op :: diag_op where
  "ex_op = \<lparr>entries = [50, 25, 7], shift = 0\<rparr>"

definition ex_solver :: "diag_op solver" where
  "ex_solver =
     \<lparr>kind = SymEigsSolver_kind, rule = LARGEST_MAGN, op = ex_op,
      dim_n = 3, nev = 1, ncv = 2,
      fac_V = [[3 / 5, 4 / 5, 0], [0, 0, 0]],
      fac_H = [[34, 0], [0, 0]],
      fac_f = [48 / 5, - (36 / 5), 0],
      ritz_val = [0, 0],
      ritz_vec = [[0, 0]],
      ritz_conv = [False],
      prec = (1 / 2 ^ 52) powr (2 / 3)\<rparr>"

text \<open>
  The same solver after the first factorization and the retrieval of the Ritz pairs in
  \<open>compute\<close>: \<open>H\<close> has the eigenvalues \<open>50\<close> and \<open>25\<close>, and the residual is
  zero. \<open>ex_env\<close> gives the values of Eigen's routines on the matrices that arise
  there: the eigendecomposition of \<open>H\<close>, eigenvalues in increasing order, and the
  orthogonal factor of \<open>H - 25 I\<close>.
\<close>

definition ex_env :: "diag_op env" where
  "ex_env =
     diag_env\<lparr>eig_eigenvalues := (\<lambda>H. [25, 50]),
              eig_eigenvectors := (\<lambda>H. [[- (4 / 5), 3 / 5], [3 / 5, 4 / 5]]),
              householderQ := (\<lambda>M. [[3 / 5, 4 / 5], [- (4 / 5), 3 / 5]])\<rparr>"

definition ex_solver2 :: "diag_op solver" where
  "ex_solver2 =
     ex_solver\<lparr>fac_V := [[3 / 5, 4 / 5, 0], [4 / 5, - (3 / 5), 0]],
               fac_H := [[34, 12], [12, 41]],
               fac_f := [0, 0, 0],
               ritz_val := [50, 25],
               ritz_vec := [[3 / 5, 4 / 5]]\<rparr>"

text \<open>The solver for \<open>nev = 1\<close>, \<open>ncv = 2\<close> as its constructor leaves it.\<close>

definition ex_fresh :: "diag_op solver" where
  "ex_fresh =
     ex_solver\<lparr>fac_V := [[0, 0, 0], [0, 0, 0]], fac_H := [[0, 0], [0, 0]],
               fac_f := [0, 0, 0]\<rparr>"

text \<open>
  A shift-and-invert solver on \<open>diag(50, 25, 7, 3)\<close> with the shift \<open>24\<close>, for
  \<open>nev = 2\<close>, \<open>ncv = 3\<close> and the largest algebraic values: the operator it iterates
  is \<open>diag(1/26, 1, -1/17, -1/21)\<close>, and its Ritz values \<open>1\<close> and \<open>1/26\<close> stand for the
  eigenvalues \<open>25\<close> and \<open>50\<close>.
\<close>

definition ex_shift_solver :: "diag_op solver" where
  "ex_shift_solver =
     \<lparr>kind = SymEigsShiftSolver_kind 24, rule = LARGEST_ALGE,
      op = \<lparr>entries = [50, 25, 7, 3], shift = 24\<rparr>,
      dim_n = 4, nev = 2, ncv = 3,
      fac_V = [[1, 0, 0, 0], [0, 1, 0, 0], [0, 0, 1, 0]],
      fac_H = [[1 / 26, 0, 0], [0, 1, 0], [0, 0, - (1 / 17)]],
      fac_f = [0, 0, 0, 0],
      ritz_val = [1, 1 / 26, - (1 / 17)],
      ritz_vec = [[0, 1, 0], [1, 0, 0]],
      ritz_conv = [True, True],
      prec = (1 / 2 ^ 52) powr (2 / 3)\<rparr>"

text \<open>
  A solver for both ends on \<open>diag(1, 3, 5, 7, 9, 11)\<close> with \<open>nev = 4\<close>, \<open>ncv = 5\<close>,
  whose \<open>H\<close> is \<open>diag(1, 3, 5, 7, 9)\<close>.
\<close>

definition ex_both :: "diag_op solver" where
  "ex_both =
     \<lparr>kind = SymEigsSolver_kind, rule = BOTH_ENDS,
      op = \<lparr>entries = [1, 3, 5, 7, 9, 11], shift = 0\<rparr>,
      dim_n = 6, nev = 4, ncv = 5,
      fac_V = [[1, 0, 0, 0, 0, 0], [0, 1, 0, 0, 0, 0], [0, 0, 1, 0, 0, 0],
               [0, 0, 0, 1, 0, 0], [0, 0, 0, 0, 1, 0]],
      fac_H = [[1, 0, 0, 0, 0], [0, 3, 0, 0, 0], [0, 0, 5, 0, 0],
               [0, 0, 0, 7, 0], [0, 0, 0, 0, 9]],
      fac_f = [0, 0, 0, 0, 0, 0],
      ritz_val = [0, 0, 0, 0, 0],
      ritz_vec = [[0, 0, 0, 0, 0], [0, 0, 0, 0, 0], [0, 0, 0, 0, 0], [0, 0, 0, 0, 0]],
      ritz_conv = [False, False, False, False],
      prec = (1 / 2 ^ 52) powr (2 / 3)\<rparr>"



section \<open>Loops and sorting: basic facts\<close>

lemma for_loop_foldl: "for_loop i n body a = foldl (\<lambda>a i. body i a) a [i..<n]"
proof (induction i n body a rule: for_loop.induct)
  case (1 i to body a)
  show ?case
  proof (cases "i < to")
    case True
    with 1 show ?thesis by (subst for_loop.simps) (simp add: upt_rec)
  next
    case False
    then show ?thesis by (subst for_loop.simps) simp
  qed
qed

lemma foldl_update_prefix:
  "k \<le> length xs \<Longrightarrow>
   foldl (\<lambda>a i. a[i := g i]) xs [0..<k] = map g [0..<k] @ drop k xs"
proof (induction k)
  case 0
  then show ?case by simp
next
  case (Suc k)
  then have "foldl (\<lambda>a i. a[i := g i]) xs [0..<Suc k] = (map g [0..<k] @ drop k xs)[k := g k]"
    by simp
  also have "\<dots> = map g [0..<k] @ (drop k xs)[0 := g k]"
    by (simp add: list_update_append)
  also have "(drop k xs)[0 := g k] = g k # drop (Suc k) xs"
    using Suc.prems by (cases "drop k xs") (auto simp: drop_Suc drop_tl)
  finally show ?case by simp
qed

lemma for_loop_update_all:
  "length xs = n \<Longrightarrow> for_loop 0 n (\<lambda>i a. a[i := g i]) xs = map g [0..<n]"
  by (simp add: for_loop_foldl foldl_update_prefix)

lemma mset_insort_by: "mset (insort_by lt x xs) = add_mset x (mset xs)"
  by (induction xs) auto

lemma mset_std_sort: "mset (std_sort lt xs) = mset xs"
  by (induction xs) (auto simp: std_sort_def mset_insort_by)

lemma length_std_sort: "length (std_sort lt xs) = length xs"
  using mset_std_sort [of lt xs] by (metis size_mset)

lemma set_std_sort: "set (std_sort lt xs) = set xs"
  using mset_std_sort [of lt xs] by (metis set_mset_mset)

lemma set_insort_by: "set (insort_by lt x xs) = insert x (set xs)"
  by (induction xs) auto

lemma sorted_insort_by:
  assumes asym: "\<And>a b. lt a b \<Longrightarrow> \<not> lt b a"
    and tr: "\<And>a b c. \<not> lt b a \<Longrightarrow> \<not> lt c b \<Longrightarrow> \<not> lt c a"
  shows "sorted_wrt (\<lambda>a b. \<not> lt b a) xs \<Longrightarrow> sorted_wrt (\<lambda>a b. \<not> lt b a) (insort_by lt x xs)"
proof (induction xs)
  case Nil
  then show ?case by simp
next
  case (Cons y ys)
  from Cons.prems have ys: "sorted_wrt (\<lambda>a b. \<not> lt b a) ys"
    and y: "\<And>z. z \<in> set ys \<Longrightarrow> \<not> lt z y" by simp_all
  show ?case
  proof (cases "lt y x")
    case True
    have "\<not> lt z y" if "z \<in> set (insort_by lt x ys)" for z
    proof -
      from that have "z = x \<or> z \<in> set ys" by (simp add: set_insort_by)
      then show ?thesis
      proof
        assume "z = x" with asym [OF True] show ?thesis by simp
      next
        assume "z \<in> set ys" then show ?thesis by (rule y)
      qed
    qed
    with Cons.IH [OF ys] True show ?thesis by simp
  next
    case False
    have "\<not> lt z x" if "z \<in> set ys" for z
      using tr [OF False y [OF that]] .
    with False Cons.prems show ?thesis by simp
  qed
qed

lemma sorted_std_sort:
  assumes asym: "\<And>a b. lt a b \<Longrightarrow> \<not> lt b a"
    and tr: "\<And>a b c. \<not> lt b a \<Longrightarrow> \<not> lt c b \<Longrightarrow> \<not> lt c a"
  shows "sorted_wrt (\<lambda>a b. \<not> lt b a) (std_sort lt xs)"
proof (induction xs)
  case Nil
  then show ?case by (simp add: std_sort_def)
next
  case (Cons x xs)
  have "sorted_wrt (\<lambda>a b. \<not> lt b a) (insort_by lt x (std_sort lt xs))"
    using asym tr Cons.IH by (rule sorted_insort_by)
  then show ?case by (simp add: std_sort_def)
qed

lemma sorted_std_sort_rule:
  "sorted_wrt (\<lambda>a b. \<not> EigenvalueComparator r b a) (std_sort (EigenvalueComparator r) xs)"
proof (rule sorted_std_sort)
  show "\<not> EigenvalueComparator r b a" if "EigenvalueComparator r a b" for a b
    using that by (cases r) auto
  show "\<not> EigenvalueComparator r c a"
    if "\<not> EigenvalueComparator r b a" "\<not> EigenvalueComparator r c b" for a b c
    using that by (cases r) auto
qed

section \<open>Matrices: basic facts\<close>




lemma length_times_vec: "length (times_vec n A x) = n"
  by (simp add: times_vec_def)





section \<open>The concrete instance: basic facts\<close>

lemma sqrt_25: "sqrt 25 = 5"
  by (rule real_sqrt_unique) simp_all

lemma sqrt_144: "sqrt 144 = 12"
  by (rule real_sqrt_unique) simp_all

lemma ex_solver_init:
  "SymEigsSolver diag_env LARGEST_MAGN ex_op 1 2 = Inr s0 \<Longrightarrow>
   init diag_env [3 / 50, 4 / 25, 0] s0 = ex_solver"
  by (auto simp: SymEigsSolver_def diag_env_def ex_op_def init_def Let_def mat_setZero_def
      vec_setZero_def matrix_operation_def vec_normalize_def vec_norm_def vec_div_def sqrt_25
      set_coeff_def dot_def vec_sub_def vec_scale_def ex_solver_def eval_nat_numeral)

lemmas ex_eval = ex_solver_def ex_op_def diag_env_def Let_def matrix_operation_def
  vec_norm_def vec_div_def vec_scale_def vec_sub_def dot_def vec_normalize_def leftCols_def
  adjoint_times_def times_vec_def times_mat_def adjoint_times_mat_def Identity_def
  mat_scale_def mat_sub_def set_coeff_def row_setZero_def col_assign_def
  eval_nat_numeral upt_rec

section \<open>Sorting Ritz pairs: basic facts\<close>

lemma foldl_sort_step:
  "foldl (\<lambda>st i. sort_step s pairs i st) (a, b, c) js =
     (foldl (\<lambda>a i. a[i := fst (pairs ! i)]) a js,
      foldl (\<lambda>b i. b[i := ritz_vec s ! snd (pairs ! i)]) b js,
      foldl (\<lambda>c i. c[i := ritz_conv s ! snd (pairs ! i)]) c js)"
  by (induction js arbitrary: a b c) (simp_all add: sort_step_def)

lemma map_nth_fst: "length ps = n \<Longrightarrow> map (\<lambda>i. f (ps ! i)) [0..<n] = map f ps"
  by (rule nth_equalityI) simp_all

lemma base_sort_fields:
  fixes E :: "'o env" and s :: "'o solver"
  assumes d: "dims_ok s" and n: "nev s \<le> ncv s"
  defines "pairs \<equiv> std_sort (EigenvalueComparator LARGEST_MAGN)
                     (map (\<lambda>i. (ritz_val s ! i, i)) [0..<nev s])"
  defines "s' \<equiv> base_sort_ritzpair E s"
  shows "ritz_val s' = map fst pairs @ drop (nev s) (ritz_val s)"
    and "ritz_vec s' = map (\<lambda>p. ritz_vec s ! snd p) pairs"
    and "ritz_conv s' = map (\<lambda>p. ritz_conv s ! snd p) pairs"
    and "s' = s\<lparr>ritz_val := ritz_val s', ritz_vec := ritz_vec s', ritz_conv := ritz_conv s'\<rparr>"
proof -
  have lp: "length pairs = nev s" by (simp add: pairs_def length_std_sort)
  from d n have lv: "nev s \<le> length (ritz_val s)" by (simp add: dims_ok_def)
  let ?nv = "replicate (nev s) (replicate (ncv s) (uninit E))"
  let ?nc = "replicate (nev s) (uninit_flag E)"
  have loop: "for_loop 0 (nev s) (sort_step s pairs) (ritz_val s, ?nv, ?nc) =
      (map fst pairs @ drop (nev s) (ritz_val s),
       map (\<lambda>p. ritz_vec s ! snd p) pairs, map (\<lambda>p. ritz_conv s ! snd p) pairs)"
    using lv lp map_nth_fst [of pairs "nev s" fst]
      map_nth_fst [of pairs "nev s" "\<lambda>p. ritz_vec s ! snd p"]
      map_nth_fst [of pairs "nev s" "\<lambda>p. ritz_conv s ! snd p"]
    by (simp add: for_loop_foldl foldl_sort_step foldl_update_prefix)
  have s': "s' = s\<lparr>ritz_val := map fst pairs @ drop (nev s) (ritz_val s),
      ritz_vec := map (\<lambda>p. ritz_vec s ! snd p) pairs,
      ritz_conv := map (\<lambda>p. ritz_conv s ! snd p) pairs\<rparr>"
    unfolding s'_def base_sort_ritzpair_def Let_def pairs_def [symmetric] loop by simp
  show "ritz_val s' = map fst pairs @ drop (nev s) (ritz_val s)"
    and "ritz_vec s' = map (\<lambda>p. ritz_vec s ! snd p) pairs"
    and "ritz_conv s' = map (\<lambda>p. ritz_conv s ! snd p) pairs"
    and "s' = s\<lparr>ritz_val := ritz_val s', ritz_vec := ritz_vec s', ritz_conv := ritz_conv s'\<rparr>"
    by (simp_all add: s')
qed

lemma sorted_pairs_facts:
  fixes xs :: vec and n :: nat and r :: selection_rule
  defines "pairs \<equiv> std_sort (EigenvalueComparator r) (map (\<lambda>i. (xs ! i, i)) [0..<n])"
  shows "length pairs = n"
    and "mset (map fst pairs) = mset (map (\<lambda>i. xs ! i) [0..<n])"
    and "mset (map snd pairs) = mset [0..<n]"
    and "p \<in> set pairs \<Longrightarrow> fst p = xs ! snd p \<and> snd p < n"
    and "sorted_wrt (\<lambda>a b. \<not> EigenvalueComparator r b a) pairs"
proof -
  let ?p0 = "map (\<lambda>i. (xs ! i, i)) [0..<n]"
  have m: "mset pairs = mset ?p0" by (simp add: pairs_def mset_std_sort)
  show "length pairs = n" by (simp add: pairs_def length_std_sort)
  have "mset (map fst pairs) = mset (map fst ?p0)"
    using m by (metis mset_map)
  then show "mset (map fst pairs) = mset (map (\<lambda>i. xs ! i) [0..<n])"
    by (simp add: comp_def)
  have "mset (map snd pairs) = mset (map snd ?p0)"
    using m by (metis mset_map)
  then show "mset (map snd pairs) = mset [0..<n]"
    by (simp add: comp_def)
  show "fst p = xs ! snd p \<and> snd p < n" if "p \<in> set pairs"
  proof -
    from that have "p \<in> set ?p0" by (simp add: pairs_def set_std_sort)
    then show ?thesis by auto
  qed
  show "sorted_wrt (\<lambda>a b. \<not> EigenvalueComparator r b a) pairs"
    unfolding pairs_def by (rule sorted_std_sort_rule)
qed

lemma sorted_magn_values:
  "sorted_wrt (\<lambda>a b. \<not> EigenvalueComparator LARGEST_MAGN b a) pairs \<Longrightarrow>
   sorted_wrt (\<lambda>a b. \<bar>a\<bar> \<ge> \<bar>b\<bar>) (map fst pairs)"
  by (simp add: sorted_wrt_map not_less)

lemma take_as_map_nth: "n \<le> length xs \<Longrightarrow> map (\<lambda>i. xs ! i) [0..<n] = take n xs"
  by (rule nth_equalityI) simp_all

section \<open>Arnoldi factorization\<close>

lemma length_row_setZero: "length (row_setZero i k A) = length A"
  by (simp add: row_setZero_def)

lemma nth_row_setZero:
  "j < length A \<Longrightarrow> row_setZero i k A ! j = (if j < k then (A ! j)[i := 0] else A ! j)"
  by (simp add: row_setZero_def)

lemma length_set_coeff: "length (set_coeff i j a A) = length A"
  by (simp add: set_coeff_def)

lemma nth_set_coeff:
  "c < length A \<Longrightarrow> set_coeff i j a A ! c = (if c = j then (A ! j)[i := a] else A ! c)"
  by (simp add: set_coeff_def)

lemma length_col_assign: "length (col_assign j k h A) = length A"
  by (simp add: col_assign_def)

lemma nth_col_assign:
  "c < length A \<Longrightarrow>
   col_assign j k h A ! c = (if c = j then take k h @ drop k (A ! j) else A ! c)"
  by (simp add: col_assign_def)

lemma fac_V_step: "fac_V (factorize_step E i t) = (fac_V t)[i := vec_div (fac_f t) (vec_norm (fac_f t))]"
  by (simp add: factorize_step_def Let_def)

lemma fac_f_step:
  "fac_f (factorize_step E i t) =
     (let w = matrix_operation E t (vec_div (fac_f t) (vec_norm (fac_f t)));
          V1 = take (i + 1) (fac_V (factorize_step E i t))
      in vec_sub w (times_vec (dim_n t) V1 (adjoint_times V1 w)))"
  by (simp add: factorize_step_def Let_def leftCols_def)

lemma fac_H_step:
  "fac_H (factorize_step E i t) =
     col_assign i (i + 1)
       (adjoint_times (take (i + 1) (fac_V (factorize_step E i t)))
          (matrix_operation E t (vec_div (fac_f t) (vec_norm (fac_f t)))))
       (set_coeff i (i - 1) (vec_norm (fac_f t)) (row_setZero i i (fac_H t)))"
  by (simp add: factorize_step_def Let_def leftCols_def)

lemma step_frame:
  "factorize_step E i t =
     t\<lparr>fac_V := fac_V (factorize_step E i t), fac_H := fac_H (factorize_step E i t),
       fac_f := fac_f (factorize_step E i t)\<rparr>"
  by (simp add: factorize_step_def Let_def)

lemma step_consts:
  "ncv (factorize_step E i t) = ncv t" "dim_n (factorize_step E i t) = dim_n t"
  "nev (factorize_step E i t) = nev t" "ritz_val (factorize_step E i t) = ritz_val t"
  "ritz_vec (factorize_step E i t) = ritz_vec t" "ritz_conv (factorize_step E i t) = ritz_conv t"
  "kind (factorize_step E i t) = kind t" "op (factorize_step E i t) = op t"
  "rule (factorize_step E i t) = rule t" "prec (factorize_step E i t) = prec t"
  by (simp_all add: factorize_step_def Let_def)

lemma step_H_entries:
  fixes E :: "'o env" and t :: "'o solver" and i :: nat
  assumes d: "dims_ok t" and i: "1 \<le> i" "i < ncv t"
  defines "beta \<equiv> vec_norm (fac_f t)"
  defines "w \<equiv> matrix_operation E t (vec_div (fac_f t) beta)"
  defines "t' \<equiv> factorize_step E i t"
  shows "fac_H t' ! (i - 1) ! i = beta"
    and "j + 1 < i \<Longrightarrow> fac_H t' ! j ! i = 0"
    and "take (i + 1) (fac_H t' ! i) = adjoint_times (take (i + 1) (fac_V t')) w"
    and "r < ncv t \<Longrightarrow> c < ncv t \<Longrightarrow> \<not> (r = i \<and> c < i) \<Longrightarrow> \<not> (c = i \<and> r \<le> i) \<Longrightarrow>
         fac_H t' ! c ! r = fac_H t ! c ! r"
    and "length (fac_H t') = ncv t" and "list_all (\<lambda>c. length c = ncv t) (fac_H t')"
proof -
  from d have lH: "length (fac_H t) = ncv t" and lV: "length (fac_V t) = ncv t"
    and cH: "\<And>c. c < ncv t \<Longrightarrow> length (fac_H t ! c) = ncv t"
    by (simp_all add: dims_ok_def list_all_length)
  let ?h = "adjoint_times (take (i + 1) (fac_V t')) w"
  have lh: "length ?h = i + 1"
    using lV i by (simp add: adjoint_times_def t'_def fac_V_step)
  have H: "fac_H t' = col_assign i (i + 1) ?h (set_coeff i (i - 1) beta (row_setZero i i (fac_H t)))"
    unfolding t'_def w_def beta_def by (rule fac_H_step)
  have ne: "i - 1 \<noteq> i" "i - 1 < ncv t" "i - 1 < i" using i by auto
  show "fac_H t' ! (i - 1) ! i = beta"
    using i ne lH cH [of "i - 1"]
    by (simp add: H nth_col_assign length_set_coeff length_row_setZero nth_set_coeff nth_row_setZero)
  show "fac_H t' ! j ! i = 0" if "j + 1 < i"
    using that i lH cH [of j]
    by (auto simp: H nth_col_assign length_set_coeff length_row_setZero nth_set_coeff nth_row_setZero)
  show "take (i + 1) (fac_H t' ! i) = ?h"
    using i lH lh
    by (simp add: H nth_col_assign length_set_coeff length_row_setZero)
  show "fac_H t' ! c ! r = fac_H t ! c ! r"
    if "r < ncv t" "c < ncv t" "\<not> (r = i \<and> c < i)" "\<not> (c = i \<and> r \<le> i)"
  proof (cases "c = i")
    case True
    with that have "i < r" by simp
    with True that i lH lh cH [of i] show ?thesis
      by (auto simp: H nth_col_assign length_set_coeff length_row_setZero nth_set_coeff
          nth_row_setZero nth_append)
  next
    case False
    with that i lH cH [of c] show ?thesis
      by (auto simp: H nth_col_assign length_set_coeff length_row_setZero nth_set_coeff
          nth_row_setZero nth_list_update)
  qed
  show "length (fac_H t') = ncv t"
    using lH by (simp add: H length_col_assign length_set_coeff length_row_setZero)
  show "list_all (\<lambda>c. length c = ncv t) (fac_H t')"
    unfolding list_all_length
  proof (intro allI impI)
    fix c assume "c < length (fac_H t')"
    then have c: "c < ncv t"
      using lH by (simp add: H length_col_assign length_set_coeff length_row_setZero)
    with i lH lh cH [of c] cH [of i] show "length (fac_H t' ! c) = ncv t"
      by (auto simp: H nth_col_assign length_set_coeff length_row_setZero nth_set_coeff
          nth_row_setZero)
  qed
qed


lemma factorize_step_opt_nonzero:
  "vec_norm (fac_f t) \<noteq> 0 \<Longrightarrow> factorize_step_opt E i t = Some (factorize_step E i t)"
  by (simp add: factorize_step_opt_def vec_quotient_def factorize_step_def Let_def)

text \<open>
  C2. When \<open>to_m \<le> from_k\<close>, \<open>factorize_from\<close> changes nothing. Otherwise it
  stores the seed as the residual and runs the step for \<open>i = from_k, \<dots>, to_m - 1\<close>
  in this order. On a solver with the constructor's dimensions, for
  \<open>1 \<le> i < ncv\<close> and a residual with \<open>\<parallel>f\<parallel> \<noteq> 0\<close>, the step \<open>i\<close> stores
  \<open>v = f / \<parallel>f\<parallel>\<close> as column \<open>i\<close> of
  \<open>V\<close> and leaves the other columns, records \<open>\<parallel>f\<parallel>\<close> in \<open>H(i, i - 1)\<close>, zeroes
  \<open>H(i, j)\<close> for \<open>j < i - 1\<close>, applies the operator to \<open>v\<close> giving \<open>w\<close>, stores
  \<open>h = V(columns 0..i)\<^sup>T w\<close> in rows \<open>0..i\<close> of column \<open>i\<close> of \<open>H\<close>, sets the residual
  to \<open>w - V(columns 0..i) h\<close>, and changes no other coefficient of \<open>H\<close> and no other
  member; the dimensions are kept when the operator returns a vector of length \<open>n\<close>.
  The division has a real value there, so this is also the result of the step with the
  division by zero set apart.
\<close>

theorem factorize_from_arnoldi:
  "(to_m \<le> from_k \<longrightarrow> factorize_from E from_k to_m fk s = s) \<and>
   (from_k < to_m \<longrightarrow>
      factorize_from E from_k to_m fk s =
        foldl (\<lambda>t i. factorize_step E i t) (s\<lparr>fac_f := fk\<rparr>) [from_k..<to_m]) \<and>
   (dims_ok t \<and> 1 \<le> i \<and> i < ncv t \<and> vec_norm (fac_f t) \<noteq> 0 \<longrightarrow>
      (let beta = vec_norm (fac_f t);
           v = vec_div (fac_f t) beta;
           w = matrix_operation E t v;
           t' = factorize_step E i t;
           h = take (i + 1) (fac_H t' ! i)
       in factorize_step_opt E i t = Some t' \<and>
          fac_V t' = (fac_V t)[i := v] \<and>
          fac_H t' ! (i - 1) ! i = beta \<and>
          (\<forall>j. j + 1 < i \<longrightarrow> fac_H t' ! j ! i = 0) \<and>
          h = adjoint_times (take (i + 1) (fac_V t')) w \<and>
          fac_f t' = vec_sub w (times_vec (dim_n t) (take (i + 1) (fac_V t')) h) \<and>
          (\<forall>r c. r < ncv t \<and> c < ncv t \<and> \<not> (r = i \<and> c < i) \<and> \<not> (c = i \<and> r \<le> i) \<longrightarrow>
             fac_H t' ! c ! r = fac_H t ! c ! r) \<and>
          t' = t\<lparr>fac_V := fac_V t', fac_H := fac_H t', fac_f := fac_f t'\<rparr> \<and>
          (length w = dim_n t \<longrightarrow> dims_ok t')))"
proof (intro conjI impI)
  show "factorize_from E from_k to_m fk s = s" if "to_m \<le> from_k"
    using that by (simp add: factorize_from_def)
  show "factorize_from E from_k to_m fk s =
      foldl (\<lambda>t i. factorize_step E i t) (s\<lparr>fac_f := fk\<rparr>) [from_k..<to_m]" if "from_k < to_m"
    using that by (simp add: factorize_from_def for_loop_foldl)
next
  assume a: "dims_ok t \<and> 1 \<le> i \<and> i < ncv t \<and> vec_norm (fac_f t) \<noteq> 0"
  then have d: "dims_ok t" and i: "1 \<le> i" "i < ncv t" by simp_all
  let ?beta = "vec_norm (fac_f t)"
  let ?v = "vec_div (fac_f t) ?beta"
  let ?w = "matrix_operation E t ?v"
  let ?t' = "factorize_step E i t"
  let ?h = "take (i + 1) (fac_H ?t' ! i)"
  note H = step_H_entries [OF d i, where E = E]
  have h: "?h = adjoint_times (take (i + 1) (fac_V ?t')) ?w" by (rule H(3))
  have f: "fac_f ?t' = vec_sub ?w (times_vec (dim_n t) (take (i + 1) (fac_V ?t')) ?h)"
    unfolding h by (simp add: fac_f_step Let_def)
  have dims: "dims_ok ?t'" if "length ?w = dim_n t"
  proof -
    from d have "length (fac_f t) = dim_n t" "length (fac_V t) = ncv t"
      "list_all (\<lambda>c. length c = dim_n t) (fac_V t)"
      by (simp_all add: dims_ok_def)
    with i have "list_all (\<lambda>c. length c = dim_n t) (fac_V ?t')" "length (fac_V ?t') = ncv t"
      by (auto simp: fac_V_step list_all_length nth_list_update vec_div_def)
    moreover have "length (fac_f ?t') = dim_n t"
      using that by (simp add: f vec_sub_def length_times_vec del: One_nat_def)
    ultimately show ?thesis
      using d H(5,6) by (simp add: dims_ok_def step_consts)
  qed
  show "let beta = vec_norm (fac_f t);
           v = vec_div (fac_f t) beta;
           w = matrix_operation E t v;
           t' = factorize_step E i t;
           h = take (i + 1) (fac_H t' ! i)
       in factorize_step_opt E i t = Some t' \<and>
          fac_V t' = (fac_V t)[i := v] \<and>
          fac_H t' ! (i - 1) ! i = beta \<and>
          (\<forall>j. j + 1 < i \<longrightarrow> fac_H t' ! j ! i = 0) \<and>
          h = adjoint_times (take (i + 1) (fac_V t')) w \<and>
          fac_f t' = vec_sub w (times_vec (dim_n t) (take (i + 1) (fac_V t')) h) \<and>
          (\<forall>r c. r < ncv t \<and> c < ncv t \<and> \<not> (r = i \<and> c < i) \<and> \<not> (c = i \<and> r \<le> i) \<longrightarrow>
             fac_H t' ! c ! r = fac_H t ! c ! r) \<and>
          t' = t\<lparr>fac_V := fac_V t', fac_H := fac_H t', fac_f := fac_f t'\<rparr> \<and>
          (length w = dim_n t \<longrightarrow> dims_ok t')"
    unfolding Let_def
  proof (intro conjI allI impI)
    show "factorize_step_opt E i t = Some ?t'"
      using a by (intro factorize_step_opt_nonzero) simp
    show "fac_V ?t' = (fac_V t)[i := ?v]" by (rule fac_V_step)
    show "fac_H ?t' ! (i - 1) ! i = ?beta" by (rule H(1))
    show "fac_H ?t' ! j ! i = 0" if "j + 1 < i" for j using that by (rule H(2))
    show "?h = adjoint_times (take (i + 1) (fac_V ?t')) ?w" by (rule h)
    show "fac_f ?t' = vec_sub ?w (times_vec (dim_n t) (take (i + 1) (fac_V ?t')) ?h)" by (rule f)
    show "fac_H ?t' ! c ! r = fac_H t ! c ! r"
      if "r < ncv t \<and> c < ncv t \<and> \<not> (r = i \<and> c < i) \<and> \<not> (c = i \<and> r \<le> i)" for r c
      using that H(4) [of r c] by blast
    show "?t' = t\<lparr>fac_V := fac_V ?t', fac_H := fac_H ?t', fac_f := fac_f ?t'\<rparr>"
      by (rule step_frame)
    show "dims_ok ?t'" if "length ?w = dim_n t" using that by (rule dims)
  qed
qed

lemma ex_step:
  "factorize_step diag_env 1 ex_solver =
     ex_solver\<lparr>fac_V := [[3 / 5, 4 / 5, 0], [4 / 5, - (3 / 5), 0]],
               fac_H := [[34, 12], [12, 41]], fac_f := [0, 0, 0]\<rparr>"
  by (simp add: factorize_step_def ex_eval sqrt_144)

text \<open>
  An instance: the step from the solver initialized on \<open>diag(50, 25, 7)\<close>, where
  \<open>\<parallel>f\<parallel> = 12\<close>.
\<close>

theorem factorize_from_arnoldi_witness:
  "dims_ok ex_solver \<and> (1 :: nat) \<le> 1 \<and> 1 < ncv ex_solver \<and>
   vec_norm (fac_f ex_solver) = 12 \<and>
   factorize_from diag_env 2 2 [1, 1, 1] ex_solver = ex_solver \<and>
   factorize_from diag_env 1 2 (fac_f ex_solver) ex_solver = factorize_step diag_env 1 ex_solver \<and>
   factorize_step_opt diag_env 1 ex_solver = Some (factorize_step diag_env 1 ex_solver) \<and>
   fac_V (factorize_step diag_env 1 ex_solver) = [[3 / 5, 4 / 5, 0], [4 / 5, - (3 / 5), 0]] \<and>
   fac_H (factorize_step diag_env 1 ex_solver) ! 0 ! 1 = 12 \<and>
   take 2 (fac_H (factorize_step diag_env 1 ex_solver) ! 1) = [12, 41] \<and>
   fac_f (factorize_step diag_env 1 ex_solver) = [0, 0, 0] \<and>
   fac_H (factorize_step diag_env 1 ex_solver) ! 0 ! 0 = 34 \<and>
   dims_ok (factorize_step diag_env 1 ex_solver)"
proof -
  have d: "dims_ok ex_solver" by (simp add: dims_ok_def ex_solver_def)
  have n: "1 < ncv ex_solver" by (simp add: ex_solver_def)
  have e: "ex_solver\<lparr>fac_f := fac_f ex_solver\<rparr> = ex_solver" by simp
  note T1 = factorize_from_arnoldi [where E = diag_env and s = ex_solver and t = ex_solver
      and i = 1 and from_k = 2 and to_m = 2 and fk = "[1, 1, 1]"]
  note T2 = factorize_from_arnoldi [where E = diag_env and s = ex_solver and t = ex_solver
      and i = 1 and from_k = 1 and to_m = 2 and fk = "fac_f ex_solver"]
  from T1 have a: "factorize_from diag_env 2 2 [1, 1, 1] ex_solver = ex_solver" by simp
  have r: "[1..<2] = [1 :: nat]" by (simp add: upt_rec)
  from T2 have "factorize_from diag_env 1 2 (fac_f ex_solver) ex_solver =
      foldl (\<lambda>t i. factorize_step diag_env i t) (ex_solver\<lparr>fac_f := fac_f ex_solver\<rparr>) [1..<2]"
    by simp
  then have b: "factorize_from diag_env 1 2 (fac_f ex_solver) ex_solver =
      factorize_step diag_env 1 ex_solver"
    unfolding r e by simp
  have w: "length (matrix_operation diag_env ex_solver
      (vec_div (fac_f ex_solver) (vec_norm (fac_f ex_solver)))) = dim_n ex_solver"
    by (simp add: ex_eval)
  have nz: "vec_norm (fac_f ex_solver) = 12"
    by (simp add: ex_solver_def vec_norm_def sqrt_144)
  then have "vec_norm (fac_f ex_solver) \<noteq> 0" by simp
  moreover have "(1 :: nat) \<le> 1" by simp
  ultimately have h: "dims_ok ex_solver \<and> (1 :: nat) \<le> 1 \<and> 1 < ncv ex_solver \<and>
      vec_norm (fac_f ex_solver) \<noteq> 0"
    using d n by blast
  from T2 h have o: "factorize_step_opt diag_env 1 ex_solver =
      Some (factorize_step diag_env 1 ex_solver)"
    and "length (matrix_operation diag_env ex_solver
      (vec_div (fac_f ex_solver) (vec_norm (fac_f ex_solver)))) = dim_n ex_solver \<longrightarrow>
      dims_ok (factorize_step diag_env 1 ex_solver)"
    unfolding Let_def by blast+
  with w have c: "dims_ok (factorize_step diag_env 1 ex_solver)" by blast
  show ?thesis
    using a b c d n nz o unfolding ex_step by simp
qed

section \<open>Implicit restart\<close>





lemma drop_as_map_nth: "length xs = n \<Longrightarrow> map (\<lambda>i. xs ! i) [k..<n] = drop k xs"
proof -
  assume n: "length xs = n"
  have "drop k xs = drop k (map (\<lambda>i. xs ! i) [0..<n])"
    using n map_nth [of xs] by simp
  also have "\<dots> = map (\<lambda>i. xs ! i) [k..<n]"
    by (simp add: drop_map)
  finally show ?thesis by simp
qed








section \<open>The driving loop\<close>

lemma compute_at_zero:
  "compute E 0 tol s =
     (1, sort_ritzpair E (retrieve_ritzpair E (factorize_from E 1 (ncv s) (fac_f s) s)))"
  by (simp add: compute_def compute_loop.simps [of E 0 tol 0])

lemma compute_loop_count:
  "iterations_performed E maxit tol i s =
     (if fst (compute_loop E maxit tol i s) < maxit
      then fst (compute_loop E maxit tol i s) + 1 - i
      else fst (compute_loop E maxit tol i s) - i)"
proof (induction E maxit tol i s rule: compute_loop.induct)
  case (1 E maxit tol i s)
  show ?case
  proof (cases "i < maxit")
    case False
    then show ?thesis
      by (simp add: compute_loop.simps [of E maxit tol i s]
          iterations_performed.simps [of E maxit tol i s])
  next
    case True
    obtain c s1 where cs: "converged tol s = (c, s1)" by (cases "converged tol s")
    show ?thesis
    proof (cases c)
      case True
      with \<open>i < maxit\<close> cs show ?thesis
        by (simp add: compute_loop.simps [of E maxit tol i s]
            iterations_performed.simps [of E maxit tol i s])
    next
      case False
      with 1 [OF \<open>i < maxit\<close> cs [symmetric]] have IH:
        "iterations_performed E maxit tol (i + 1) (restart E (nev s1) s1) =
         (if fst (compute_loop E maxit tol (i + 1) (restart E (nev s1) s1)) < maxit
          then fst (compute_loop E maxit tol (i + 1) (restart E (nev s1) s1)) + 1 - (i + 1)
          else fst (compute_loop E maxit tol (i + 1) (restart E (nev s1) s1)) - (i + 1))"
        by simp
      from False \<open>i < maxit\<close> cs show ?thesis
        by (simp add: compute_loop.simps [of E maxit tol i s]
            iterations_performed.simps [of E maxit tol i s] IH)
    qed
  qed
qed

lemma compute_loop_bounds:
  "i \<le> fst (compute_loop E maxit tol i s) \<and>
   (i \<le> maxit \<longrightarrow> fst (compute_loop E maxit tol i s) \<le> maxit)"
proof (induction E maxit tol i s rule: compute_loop.induct)
  case (1 E maxit tol i s)
  show ?case
  proof (cases "i < maxit")
    case False
    then have e: "compute_loop E maxit tol i s = (i, s)"
      by (simp add: compute_loop.simps [of E maxit tol i s])
    show ?thesis unfolding e using False by simp
  next
    case True
    obtain c s1 where cs: "converged tol s = (c, s1)" by (cases "converged tol s")
    show ?thesis
    proof (cases c)
      case True
      with \<open>i < maxit\<close> cs have e: "compute_loop E maxit tol i s = (i, s1)"
        by (simp add: compute_loop.simps [of E maxit tol i s])
      show ?thesis unfolding e using \<open>i < maxit\<close> by simp
    next
      case False
      with \<open>i < maxit\<close> cs have e: "compute_loop E maxit tol i s =
          compute_loop E maxit tol (i + 1) (restart E (nev s1) s1)"
        by (simp add: compute_loop.simps [of E maxit tol i s])
      show ?thesis
        unfolding e using 1 [OF \<open>i < maxit\<close> cs [symmetric]] False \<open>i < maxit\<close> by simp
    qed
  qed
qed

lemma compute_loop_break:
  "fst (compute_loop E maxit tol i s) < maxit \<Longrightarrow>
   list_all (\<lambda>b. b) (ritz_conv (snd (compute_loop E maxit tol i s)))"
proof (induction E maxit tol i s rule: compute_loop.induct)
  case (1 E maxit tol i s)
  show ?case
  proof (cases "i < maxit")
    case False
    with "1.prems" show ?thesis by (simp add: compute_loop.simps [of E maxit tol i s])
  next
    case True
    obtain c s1 where cs: "converged tol s = (c, s1)" by (cases "converged tol s")
    show ?thesis
    proof (cases c)
      case True
      from cs have "c = list_all (\<lambda>b. b) (ritz_conv s1)"
        by (auto simp: converged_def Let_def)
      with True \<open>i < maxit\<close> cs show ?thesis
        by (simp add: compute_loop.simps [of E maxit tol i s])
    next
      case False
      with 1 \<open>i < maxit\<close> cs show ?thesis
        by (simp add: compute_loop.simps [of E maxit tol i s])
    qed
  qed
qed

section \<open>Convergence test\<close>

lemma converged_flags:
  assumes d: "dims_ok s" and n: "nev s \<le> ncv s"
  shows "length (ritz_conv (snd (converged tol s))) = nev s"
    and "j < nev s \<Longrightarrow>
         ritz_conv (snd (converged tol s)) ! j \<longleftrightarrow>
           \<bar>ritz_vec s ! j ! (ncv s - 1)\<bar> * vec_norm (fac_f s)
             < tol * max (prec s) \<bar>ritz_val s ! j\<bar>"
proof -
  from d have lv: "length (ritz_val s) = ncv s" and lm: "length (ritz_vec s) = nev s"
    and cm: "\<And>c. c < nev s \<Longrightarrow> length (ritz_vec s ! c) = ncv s"
    by (simp_all add: dims_ok_def list_all_length)
  show "length (ritz_conv (snd (converged tol s))) = nev s"
    using lv lm n by (simp add: converged_def Let_def)
  show "ritz_conv (snd (converged tol s)) ! j \<longleftrightarrow>
           \<bar>ritz_vec s ! j ! (ncv s - 1)\<bar> * vec_norm (fac_f s)
             < tol * max (prec s) \<bar>ritz_val s ! j\<bar>" if j: "j < nev s"
  proof -
    from j n have "ritz_vec s ! j \<noteq> []" using cm [of j] by auto
    then have "last (ritz_vec s ! j) = ritz_vec s ! j ! (ncv s - 1)"
      using cm [OF j] by (simp add: last_conv_nth)
    then show ?thesis
      using j lv lm n by (simp add: converged_def Let_def max.commute)
  qed
qed

lemma converged_result:
  "fst (converged tol s) \<longleftrightarrow>
     (\<forall>j. j < length (ritz_conv (snd (converged tol s))) \<longrightarrow> ritz_conv (snd (converged tol s)) ! j)"
  by (simp add: converged_def Let_def list_all_length)

lemma converged_frame:
  "snd (converged tol s) = s\<lparr>ritz_conv := ritz_conv (snd (converged tol s))\<rparr>"
  by (simp add: converged_def Let_def)

text \<open>
  C3. On a solver with the constructor's dimensions and \<open>nev \<le> ncv\<close>,
  \<open>converged(tol)\<close> sets \<open>nev\<close> flags; flag \<open>j\<close> is set if and only if
  \<open>|ritz_vec(ncv - 1, j)| * \<parallel>f\<parallel> < tol * max(prec, |ritz_val[j]|)\<close>; it returns true if
  and only if all \<open>nev\<close> flags are set, and it changes nothing but the flags. The
  constructor sets \<open>prec\<close> to \<open>epsilon\<^sup>2\<^sup>/\<^sup>3\<close>, and \<open>init\<close> keeps it.
\<close>

theorem converged_bound:
  "(dims_ok s \<and> nev s \<le> ncv s \<and> converged tol s = (c, s') \<longrightarrow>
      length (ritz_conv s') = nev s \<and>
      (\<forall>j. j < nev s \<longrightarrow>
         (ritz_conv s' ! j \<longleftrightarrow>
            \<bar>ritz_vec s ! j ! (ncv s - 1)\<bar> * vec_norm (fac_f s)
              < tol * max (prec s) \<bar>ritz_val s ! j\<bar>)) \<and>
      (c \<longleftrightarrow> (\<forall>j. j < nev s \<longrightarrow> ritz_conv s' ! j)) \<and>
      s' = s\<lparr>ritz_conv := ritz_conv s'\<rparr>) \<and>
   (SymEigsSolver E r op_in nev_in ncv_in = Inr s0 \<longrightarrow>
      prec s0 = epsilon E powr (2 / 3) \<and> prec (init E init_coef s0) = prec s0)"
proof (intro conjI impI)
  assume a: "dims_ok s \<and> nev s \<le> ncv s \<and> converged tol s = (c, s')"
  then have d: "dims_ok s" and n: "nev s \<le> ncv s" and s': "s' = snd (converged tol s)"
    and c: "c = fst (converged tol s)" by simp_all
  note F = converged_flags [OF d n, where tol = tol]
  show l: "length (ritz_conv s') = nev s" unfolding s' by (rule F(1))
  show "\<forall>j. j < nev s \<longrightarrow>
         (ritz_conv s' ! j \<longleftrightarrow>
            \<bar>ritz_vec s ! j ! (ncv s - 1)\<bar> * vec_norm (fac_f s)
              < tol * max (prec s) \<bar>ritz_val s ! j\<bar>)"
    unfolding s' using F(2) by blast
  show "c \<longleftrightarrow> (\<forall>j. j < nev s \<longrightarrow> ritz_conv s' ! j)"
    using converged_result [of tol s] l unfolding c s' by simp
  show "s' = s\<lparr>ritz_conv := ritz_conv s'\<rparr>"
    unfolding s' by (rule converged_frame)
next
  assume "SymEigsSolver E r op_in nev_in ncv_in = Inr s0"
  then show "prec s0 = epsilon E powr (2 / 3)"
    by (auto simp: SymEigsSolver_def Let_def)
  show "prec (init E init_coef s0) = prec s0"
    by (simp add: init_def Let_def)
qed

lemma ex_prec: "prec ex_solver2 \<le> 1"
  by (simp add: ex_solver2_def ex_solver_def powr_le1)

text \<open>
  An instance: on \<open>diag(50, 25, 7)\<close> the residual is zero after the first factorization,
  and the Ritz pair of \<open>50\<close> has converged for the tolerance \<open>10\<^sup>-\<^sup>1\<^sup>0\<close>.
\<close>

theorem converged_bound_witness:
  "dims_ok ex_solver2 \<and> nev ex_solver2 \<le> ncv ex_solver2 \<and>
   converged (1 / 10 ^ 10) ex_solver2 = (True, ex_solver2\<lparr>ritz_conv := [True]\<rparr>) \<and>
   \<bar>ritz_vec ex_solver2 ! 0 ! (ncv ex_solver2 - 1)\<bar> * vec_norm (fac_f ex_solver2) = 0 \<and>
   1 / 10 ^ 10 * max (prec ex_solver2) \<bar>ritz_val ex_solver2 ! 0\<bar> = 1 / (2 * 10 ^ 8) \<and>
   SymEigsSolver diag_env LARGEST_MAGN ex_op 1 2 =
     Inr ex_fresh \<and>
   prec ex_solver = epsilon diag_env powr (2 / 3)"
proof -
  have d: "dims_ok ex_solver2" by (simp add: dims_ok_def ex_solver2_def ex_solver_def)
  have n: "nev ex_solver2 \<le> ncv ex_solver2" by (simp add: ex_solver2_def ex_solver_def)
  have m: "max (prec ex_solver2) \<bar>ritz_val ex_solver2 ! 0\<bar> = 50"
    using ex_prec by (simp add: ex_solver2_def)
  have f: "vec_norm (fac_f ex_solver2) = 0" by (simp add: ex_solver2_def vec_norm_def)
  have cv: "converged (1 / 10 ^ 10) ex_solver2 = (True, ex_solver2\<lparr>ritz_conv := [True]\<rparr>)"
    using m f by (simp add: converged_def Let_def ex_solver2_def ex_solver_def max.commute)
  have k: "SymEigsSolver diag_env LARGEST_MAGN ex_op 1 2 =
     Inr ex_fresh"
    by (simp add: SymEigsSolver_def ex_fresh_def ex_solver_def diag_env_def ex_op_def eval_nat_numeral)
  note T = converged_bound [where s = ex_solver2 and tol = "1 / 10 ^ 10" and c = True
      and s' = "ex_solver2\<lparr>ritz_conv := [True]\<rparr>" and E = diag_env and r = LARGEST_MAGN
      and op_in = ex_op and nev_in = 1 and ncv_in = 2
      and ?s0.0 = ex_fresh]
  from T k have p: "prec ex_solver = epsilon diag_env powr (2 / 3)" by (simp add: ex_fresh_def)
  show ?thesis
    using d n m f cv k p by simp
qed

section \<open>Retrieval of the Ritz pairs\<close>

lemma swapped_from_zero: "swapped_from off m 0 p = p"
  by (simp add: swapped_from_def)

lemma swapped_from_step:
  assumes "off + Suc k \<le> m" "p < m"
  shows "swapped_from off m k
           (if p = m - 1 - k then off + k else if p = off + k then m - 1 - k else p) =
         swapped_from off m (Suc k) p"
  using assms unfolding swapped_from_def by (auto split: if_splits)

lemma swapped_from_below: "p < off \<Longrightarrow> swapped_from off m k p = p"
  by (simp add: swapped_from_def)

lemma swapped_from_range:
  assumes "off + c \<le> m" "off \<le> p" "p < off + c"
  shows "m - c \<le> swapped_from off m c p \<and> swapped_from off m c p < m"
  using assms unfolding swapped_from_def by (auto split: if_splits)

lemma swapped_from_bound: "p < m \<Longrightarrow> swapped_from off m k p < m"
  unfolding swapped_from_def by (auto split: if_splits)

lemma swapped_from_involution:
  "p < m \<Longrightarrow> swapped_from off m k (swapped_from off m k p) = p"
  unfolding swapped_from_def by (auto split: if_splits)

lemma swap_loop_positions:
  "off + k \<le> m \<Longrightarrow> length xs = m \<Longrightarrow>
   foldl (\<lambda>xs i. swap_step off m i xs) xs [0..<k] =
     map (\<lambda>p. xs ! swapped_from off m k p) [0..<m]"
proof (induction k)
  case 0
  then show ?case using map_nth [of xs] by (simp add: swapped_from_zero)
next
  case (Suc k)
  let ?ys = "map (\<lambda>p. xs ! swapped_from off m k p) [0..<m]"
  let ?a = "off + k" and ?b = "m - 1 - k"
  let ?sw = "\<lambda>p. if p = ?b then ?a else if p = ?a then ?b else p"
  from Suc.prems have ab: "?a < m" "?b < m" by simp_all
  from Suc have IH: "foldl (\<lambda>xs i. swap_step off m i xs) xs [0..<k] = ?ys" by simp
  have "foldl (\<lambda>xs i. swap_step off m i xs) xs [0..<Suc k] = std_swap ?a ?b ?ys"
    by (simp add: IH) (simp add: swap_step_def)
  also have "\<dots> = map (\<lambda>p. xs ! swapped_from off m (Suc k) p) [0..<m]"
  proof (rule nth_equalityI)
    show "length (std_swap ?a ?b ?ys) = length (map (\<lambda>p. xs ! swapped_from off m (Suc k) p) [0..<m])"
      by (simp add: std_swap_def)
  next
    fix p assume "p < length (std_swap ?a ?b ?ys)"
    then have p: "p < m" by (simp add: std_swap_def)
    have sw: "?sw p < m" using p ab by simp
    have "std_swap ?a ?b ?ys ! p = ?ys ! ?sw p"
      using p ab by (simp add: std_swap_def nth_list_update del: nth_map)
    also have "\<dots> = xs ! swapped_from off m k (?sw p)"
      using sw by (simp del: upt_Suc)
    also have "swapped_from off m k (?sw p) = swapped_from off m (Suc k) p"
      using Suc.prems(1) p by (rule swapped_from_step)
    finally show "std_swap ?a ?b ?ys ! p = map (\<lambda>p. xs ! swapped_from off m (Suc k) p) [0..<m] ! p"
      using p by simp
  qed
  finally show ?case .
qed

lemma mset_swap_step:
  "off + i < length xs \<Longrightarrow> m - 1 - i < length xs \<Longrightarrow>
   mset (swap_step off m i xs) = mset xs \<and> length (swap_step off m i xs) = length xs"
  by (simp add: swap_step_def std_swap_def mset_swap)

lemma mset_swap_loop:
  "off + k \<le> m \<Longrightarrow> length xs = m \<Longrightarrow>
   mset (foldl (\<lambda>xs i. swap_step off m i xs) xs [0..<k]) = mset xs \<and>
   length (foldl (\<lambda>xs i. swap_step off m i xs) xs [0..<k]) = m"
proof (induction k)
  case 0
  then show ?case by simp
next
  case (Suc k)
  then have IH: "mset (foldl (\<lambda>xs i. swap_step off m i xs) xs [0..<k]) = mset xs"
    "length (foldl (\<lambda>xs i. swap_step off m i xs) xs [0..<k]) = m" by simp_all
  from Suc.prems have "off + k < m" "m - 1 - k < m" by simp_all
  with IH mset_swap_step [of off k "foldl (\<lambda>xs i. swap_step off m i xs) xs [0..<k]" m]
  show ?case by simp
qed

lemma swapped_from_image:
  assumes oc: "off + c \<le> m"
  shows "mset (map (swapped_from off m c) [off..<off + c]) = mset [m - c..<m]"
proof -
  let ?f = "swapped_from off m c"
  have inj: "inj_on ?f {off..<off + c}"
  proof (rule inj_onI)
    fix p q assume pq: "p \<in> {off..<off + c}" "q \<in> {off..<off + c}" and e: "?f p = ?f q"
    from pq oc have p: "p < m" and q: "q < m" by simp_all
    have "?f (?f p) = p" using p by (rule swapped_from_involution)
    moreover have "?f (?f q) = q" using q by (rule swapped_from_involution)
    ultimately show "p = q" using e by metis
  qed
  have sub: "?f ` {off..<off + c} \<subseteq> {m - c..<m}"
  proof
    fix y assume "y \<in> ?f ` {off..<off + c}"
    then obtain p where p: "off \<le> p" "p < off + c" and y: "y = ?f p" by auto
    from swapped_from_range [OF oc p] show "y \<in> {m - c..<m}" by (simp add: y)
  qed
  have "card (?f ` {off..<off + c}) = c" using inj by (simp add: card_image)
  moreover have "card {m - c..<m} = c" using oc by simp
  ultimately have "?f ` {off..<off + c} = {m - c..<m}"
    using sub by (intro card_subset_eq) simp_all
  then have s: "set (map ?f [off..<off + c]) = set [m - c..<m]" by simp
  have d: "distinct (map ?f [off..<off + c])"
    using inj by (simp add: distinct_map)
  show ?thesis
    using set_eq_iff_mset_eq_distinct [OF d distinct_upt, of "m - c" m] s by blast
qed

lemma both_ends_prefix:
  assumes oc: "off + c \<le> m" and l: "length xs = m"
  defines "ys \<equiv> foldl (\<lambda>xs i. swap_step off m i xs) xs [0..<c]"
  shows "take off ys = take off xs"
    and "mset (take c (drop off ys)) = mset (drop (m - c) xs)"
proof -
  let ?f = "swapped_from off m c"
  have ys: "ys = map (\<lambda>p. xs ! ?f p) [0..<m]"
    unfolding ys_def using oc l by (rule swap_loop_positions)
  have "take off ys = map (\<lambda>p. xs ! ?f p) [0..<off]"
    using oc by (simp add: ys take_map)
  also have "\<dots> = map (\<lambda>p. xs ! p) [0..<off]"
    by (rule map_cong) (simp_all add: swapped_from_below)
  also have "\<dots> = take off xs"
    using oc l by (intro take_as_map_nth) simp
  finally show "take off ys = take off xs" .
  have "take c (drop off ys) = map (\<lambda>p. xs ! ?f p) [off..<off + c]"
    using oc by (simp add: ys take_map drop_map)
  then have "mset (take c (drop off ys)) = image_mset ((!) xs) (mset (map ?f [off..<off + c]))"
    by (simp add: multiset.map_comp comp_def)
  also have "\<dots> = image_mset ((!) xs) (mset [m - c..<m])"
    by (simp only: swapped_from_image [OF oc])
  also have "\<dots> = mset (map (\<lambda>i. xs ! i) [m - c..<m])" by simp
  also have "map (\<lambda>i. xs ! i) [m - c..<m] = drop (m - c) xs"
    using l by (rule drop_as_map_nth)
  finally show "mset (take c (drop off ys)) = mset (drop (m - c) xs)" .
qed

lemma descending_is_rev_sort:
  fixes xs :: "real list"
  assumes "sorted_wrt (\<lambda>a b. a \<ge> b) xs" "mset xs = mset ys"
  shows "xs = rev (sort ys)"
proof -
  have "sorted (rev xs)" using assms(1) by (simp add: sorted_wrt_rev)
  moreover have "mset (rev xs) = mset ys" using assms(2) by simp
  ultimately have "sort ys = rev xs" by (intro properties_for_sort) simp_all
  then show ?thesis by simp
qed

lemma final_pairs_perm:
  assumes n: "nev s \<le> ncv s"
  shows "mset (final_pairs E s) = mset (sorted_pairs E s)"
    and "length (final_pairs E s) = ncv s"
proof -
  have l: "length (sorted_pairs E s) = ncv s"
    unfolding sorted_pairs_def by (rule sorted_pairs_facts(1))
  have oc: "(nev s + 1) div 2 + (nev s - (nev s + 1) div 2) \<le> ncv s" using n by simp
  from mset_swap_loop [OF oc l] l
  show "mset (final_pairs E s) = mset (sorted_pairs E s)"
    and "length (final_pairs E s) = ncv s"
    by (simp_all add: final_pairs_def)
qed

lemma retrieve_fields:
  fixes E :: "'o env" and s :: "'o solver"
  assumes d: "dims_ok s" and n: "nev s \<le> ncv s"
  shows "ritz_val (retrieve_ritzpair E s) = map fst (final_pairs E s)"
    and "ritz_vec (retrieve_ritzpair E s) =
           map (\<lambda>p. eig_eigenvectors E (fac_H s) ! snd p) (take (nev s) (final_pairs E s))"
    and "retrieve_ritzpair E s =
           s\<lparr>ritz_val := ritz_val (retrieve_ritzpair E s),
             ritz_vec := ritz_vec (retrieve_ritzpair E s)\<rparr>"
proof -
  let ?p2 = "final_pairs E s"
  from d have lv: "length (ritz_val s) = ncv s" and lm: "length (ritz_vec s) = nev s"
    by (simp_all add: dims_ok_def)
  have lp: "length ?p2 = ncv s" using n by (rule final_pairs_perm)
  have r: "retrieve_ritzpair E s =
     s\<lparr>ritz_val := for_loop 0 (ncv s) (\<lambda>i rv. rv[i := fst (?p2 ! i)]) (ritz_val s),
       ritz_vec := for_loop 0 (nev s)
         (\<lambda>i rm. rm[i := eig_eigenvectors E (fac_H s) ! snd (?p2 ! i)]) (ritz_vec s)\<rparr>"
    by (simp add: retrieve_ritzpair_def final_pairs_def sorted_pairs_def Let_def for_loop_foldl)
  have v: "for_loop 0 (ncv s) (\<lambda>i rv. rv[i := fst (?p2 ! i)]) (ritz_val s) = map fst ?p2"
    using lv lp map_nth_fst [of ?p2 "ncv s" fst] by (simp add: for_loop_update_all)
  have "for_loop 0 (nev s) (\<lambda>i rm. rm[i := eig_eigenvectors E (fac_H s) ! snd (?p2 ! i)])
      (ritz_vec s) = map (\<lambda>i. eig_eigenvectors E (fac_H s) ! snd (?p2 ! i)) [0..<nev s]"
    using lm by (simp add: for_loop_update_all)
  also have "\<dots> = map (\<lambda>p. eig_eigenvectors E (fac_H s) ! snd p) (take (nev s) ?p2)"
    using n lp by (intro nth_equalityI) simp_all
  finally have m: "for_loop 0 (nev s)
      (\<lambda>i rm. rm[i := eig_eigenvectors E (fac_H s) ! snd (?p2 ! i)]) (ritz_vec s) =
      map (\<lambda>p. eig_eigenvectors E (fac_H s) ! snd p) (take (nev s) ?p2)" .
  show "ritz_val (retrieve_ritzpair E s) = map fst ?p2"
    by (subst r) (simp add: v)
  show "ritz_vec (retrieve_ritzpair E s) =
      map (\<lambda>p. eig_eigenvectors E (fac_H s) ! snd p) (take (nev s) ?p2)"
    by (subst r) (simp add: m)
  show "retrieve_ritzpair E s =
      s\<lparr>ritz_val := ritz_val (retrieve_ritzpair E s),
        ritz_vec := ritz_vec (retrieve_ritzpair E s)\<rparr>"
    by (simp add: retrieve_ritzpair_def Let_def)
qed

lemma sorted_pairs_props:
  fixes E :: "'o env" and s :: "'o solver"
  defines "evals \<equiv> eig_eigenvalues E (fac_H s)"
  shows "length (sorted_pairs E s) = ncv s"
    and "mset (map snd (sorted_pairs E s)) = mset [0..<ncv s]"
    and "q \<in> set (sorted_pairs E s) \<Longrightarrow> fst q = evals ! snd q"
    and "length evals = ncv s \<Longrightarrow> mset (map fst (sorted_pairs E s)) = mset evals"
    and "sorted_wrt (\<lambda>a b. \<not> EigenvalueComparator (rule s) b a) (sorted_pairs E s)"
proof -
  show "length (sorted_pairs E s) = ncv s"
    unfolding sorted_pairs_def evals_def by (rule sorted_pairs_facts(1))
  show "mset (map snd (sorted_pairs E s)) = mset [0..<ncv s]"
    unfolding sorted_pairs_def evals_def by (rule sorted_pairs_facts(3))
  show "fst q = evals ! snd q" if "q \<in> set (sorted_pairs E s)"
    using that sorted_pairs_facts(4) [where p = q and r = "rule s" and xs = evals and n = "ncv s"]
    unfolding sorted_pairs_def evals_def by simp
  show "mset (map fst (sorted_pairs E s)) = mset evals" if "length evals = ncv s"
  proof -
    have "mset (map fst (sorted_pairs E s)) = mset (map (\<lambda>i. evals ! i) [0..<ncv s])"
      unfolding sorted_pairs_def evals_def by (rule sorted_pairs_facts(2))
    also have "map (\<lambda>i. evals ! i) [0..<ncv s] = evals"
      using that map_nth [of evals] by simp
    finally show ?thesis .
  qed
  show "sorted_wrt (\<lambda>a b. \<not> EigenvalueComparator (rule s) b a) (sorted_pairs E s)"
    unfolding sorted_pairs_def by (rule sorted_pairs_facts(5))
qed

lemma retrieve_matching:
  fixes E :: "'o env" and s :: "'o solver"
  assumes d: "dims_ok s" and n: "nev s \<le> ncv s"
  defines "p \<equiv> map snd (final_pairs E s)"
  shows "mset p = mset [0..<ncv s]"
    and "ritz_val (retrieve_ritzpair E s) = map (\<lambda>i. eig_eigenvalues E (fac_H s) ! i) p"
    and "ritz_vec (retrieve_ritzpair E s) =
           map (\<lambda>i. eig_eigenvectors E (fac_H s) ! i) (take (nev s) p)"
proof -
  have m: "mset (final_pairs E s) = mset (sorted_pairs E s)"
    using n by (rule final_pairs_perm)
  then have "mset (map snd (final_pairs E s)) = mset (map snd (sorted_pairs E s))"
    by (metis mset_map)
  then show "mset p = mset [0..<ncv s]"
    by (simp only: p_def sorted_pairs_props(2))
  have st: "set (final_pairs E s) = set (sorted_pairs E s)"
    using m by (metis set_mset_mset)
  have "map fst (final_pairs E s) =
      map (\<lambda>q. eig_eigenvalues E (fac_H s) ! snd q) (final_pairs E s)"
    by (rule map_cong) (simp_all add: st sorted_pairs_props(3))
  then show "ritz_val (retrieve_ritzpair E s) = map (\<lambda>i. eig_eigenvalues E (fac_H s) ! i) p"
    by (simp add: retrieve_fields(1) [OF d n] p_def comp_def)
  show "ritz_vec (retrieve_ritzpair E s) =
      map (\<lambda>i. eig_eigenvectors E (fac_H s) ! i) (take (nev s) p)"
    by (simp add: retrieve_fields(2) [OF d n] p_def take_map comp_def)
qed

lemma retrieve_sorted:
  fixes E :: "'o env" and s :: "'o solver"
  assumes d: "dims_ok s" and n: "nev s \<le> ncv s" and r: "rule s \<noteq> BOTH_ENDS"
  shows "ritz_val (retrieve_ritzpair E s) = map fst (sorted_pairs E s)"
    and "rule s = LARGEST_MAGN \<Longrightarrow>
           sorted_wrt (\<lambda>a b. \<bar>a\<bar> \<ge> \<bar>b\<bar>) (ritz_val (retrieve_ritzpair E s))"
    and "rule s = LARGEST_ALGE \<Longrightarrow>
           sorted_wrt (\<lambda>a b. a \<ge> b) (ritz_val (retrieve_ritzpair E s))"
    and "rule s = SMALLEST_ALGE \<Longrightarrow>
           sorted_wrt (\<lambda>a b. a \<le> b) (ritz_val (retrieve_ritzpair E s))"
proof -
  show v: "ritz_val (retrieve_ritzpair E s) = map fst (sorted_pairs E s)"
    using r by (simp add: retrieve_fields(1) [OF d n] final_pairs_def)
  note S = sorted_pairs_props(5) [of s E]
  show "sorted_wrt (\<lambda>a b. \<bar>a\<bar> \<ge> \<bar>b\<bar>) (ritz_val (retrieve_ritzpair E s))"
    if "rule s = LARGEST_MAGN"
    using S that by (simp add: v sorted_wrt_map not_less)
  show "sorted_wrt (\<lambda>a b. a \<ge> b) (ritz_val (retrieve_ritzpair E s))"
    if "rule s = LARGEST_ALGE"
    using S that by (simp add: v sorted_wrt_map not_less)
  show "sorted_wrt (\<lambda>a b. a \<le> b) (ritz_val (retrieve_ritzpair E s))"
    if "rule s = SMALLEST_ALGE"
    using S that by (simp add: v sorted_wrt_map not_less)
qed

lemma retrieve_both_ends:
  fixes E :: "'o env" and s :: "'o solver"
  assumes d: "dims_ok s" and n: "nev s \<le> ncv s" and r: "rule s = BOTH_ENDS"
    and le: "length (eig_eigenvalues E (fac_H s)) = ncv s"
  defines "offset \<equiv> (nev s + 1) div 2"
  defines "desc \<equiv> rev (sort (eig_eigenvalues E (fac_H s)))"
  shows "take offset (ritz_val (retrieve_ritzpair E s)) = take offset desc"
    and "mset (take (nev s - offset) (drop offset (ritz_val (retrieve_ritzpair E s)))) =
         mset (drop (ncv s - (nev s - offset)) desc)"
proof -
  let ?sp = "sorted_pairs E s"
  have l: "length ?sp = ncv s" by (rule sorted_pairs_props(1))
  have oc: "offset + (nev s - offset) \<le> ncv s" using n by (simp add: offset_def)
  have fp: "final_pairs E s =
      foldl (\<lambda>xs i. swap_step offset (ncv s) i xs) ?sp [0..<nev s - offset]"
    using r by (simp add: final_pairs_def offset_def)
  have v: "ritz_val (retrieve_ritzpair E s) = map fst (final_pairs E s)"
    by (rule retrieve_fields(1) [OF d n])
  have "sorted_wrt (\<lambda>a b. \<not> EigenvalueComparator (rule s) b a) ?sp"
    by (rule sorted_pairs_props(5))
  then have "sorted_wrt (\<lambda>a b. a \<ge> b) (map fst ?sp)"
    using r by (simp add: sorted_wrt_map not_less)
  moreover have "mset (map fst ?sp) = mset (eig_eigenvalues E (fac_H s))"
    using le by (rule sorted_pairs_props(4))
  ultimately have desc: "map fst ?sp = desc"
    unfolding desc_def by (rule descending_is_rev_sort)
  note B = both_ends_prefix [OF oc l]
  have "take offset (map fst (final_pairs E s)) = map fst (take offset ?sp)"
    unfolding fp by (simp only: take_map B(1))
  then show "take offset (ritz_val (retrieve_ritzpair E s)) = take offset desc"
    by (simp add: v take_map desc [symmetric])
  have "mset (take (nev s - offset) (drop offset (map fst (final_pairs E s)))) =
      image_mset fst (mset (take (nev s - offset) (drop offset (final_pairs E s))))"
    by (simp add: take_map drop_map)
  also have "\<dots> = image_mset fst (mset (drop (ncv s - (nev s - offset)) ?sp))"
    unfolding fp by (simp only: B(2))
  also have "\<dots> = mset (drop (ncv s - (nev s - offset)) (map fst ?sp))"
    by (simp add: drop_map)
  finally show "mset (take (nev s - offset) (drop offset (ritz_val (retrieve_ritzpair E s)))) =
      mset (drop (ncv s - (nev s - offset)) desc)"
    by (simp add: v desc)
qed

lemma ex_both_evals:
  "eig_eigenvalues diag_env (fac_H ex_both) = [1, 3, 5, 7, 9]"
  "eig_eigenvectors diag_env (fac_H ex_both) =
     [[1, 0, 0, 0, 0], [0, 1, 0, 0, 0], [0, 0, 1, 0, 0], [0, 0, 0, 1, 0], [0, 0, 0, 0, 1]]"
  by (simp_all add: ex_both_def diag_env_def Identity_def eval_nat_numeral upt_rec)

lemma ex_both_sorted:
  "sorted_pairs diag_env ex_both = [(9, 4), (7, 3), (5, 2), (3, 1), (1, 0)]"
  unfolding sorted_pairs_def ex_both_evals
  by (simp add: ex_both_def std_sort_def eval_nat_numeral upt_rec)

lemma ex_both_final:
  "final_pairs diag_env ex_both = [(9, 4), (7, 3), (1, 0), (3, 1), (5, 2)]"
proof -
  have n: "rule ex_both = BOTH_ENDS" "nev ex_both = 4" "ncv ex_both = 5"
    by (simp_all add: ex_both_def)
  have r: "[0..<4 - (4 + 1) div 2] = [0, 1 :: nat]" by (simp add: upt_rec)
  show ?thesis
    unfolding final_pairs_def n ex_both_sorted r
    by (simp add: swap_step_def std_swap_def)
qed

text \<open>
  C7. On a solver with the constructor's dimensions and \<open>nev \<le> ncv\<close>, with Eigen
  returning \<open>ncv\<close> eigenvalues of \<open>H\<close>, \<open>retrieve_ritzpair\<close> writes into the
  Ritz-value array all \<open>ncv\<close> eigenvalues in the order of a permutation \<open>p\<close> of the
  indices, and into the Ritz-vector matrix the eigenvector columns of the first \<open>nev\<close>
  indices of \<open>p\<close>; it changes nothing else. The values are in the order of the
  rule: in decreasing magnitude for the largest magnitude, where the order among values
  of equal magnitude is the one \<open>std::sort\<close> happens to produce and is not stated;
  the eigenvalues in decreasing order for the largest algebraic values, and in increasing
  order for the smallest. For both ends, the first \<open>\<lceil>nev/2\<rceil>\<close> values are the largest
  in decreasing order, and the next \<open>\<lfloor>nev/2\<rfloor>\<close> are the smallest values, those of the
  tail of the sorted list.
\<close>

theorem retrieve_ritzpair_spec:
  "dims_ok s \<and> nev s \<le> ncv s \<and> length (eig_eigenvalues E (fac_H s)) = ncv s \<longrightarrow>
     (let evals = eig_eigenvalues E (fac_H s);
          evecs = eig_eigenvectors E (fac_H s);
          s' = retrieve_ritzpair E s;
          offset = (nev s + 1) div 2
      in (\<exists>p. mset p = mset [0..<ncv s] \<and>
              ritz_val s' = map (\<lambda>i. evals ! i) p \<and>
              ritz_vec s' = map (\<lambda>i. evecs ! i) (take (nev s) p)) \<and>
         (rule s = LARGEST_MAGN \<longrightarrow> sorted_wrt (\<lambda>a b. \<bar>a\<bar> \<ge> \<bar>b\<bar>) (ritz_val s')) \<and>
         (rule s = LARGEST_ALGE \<longrightarrow>
            sorted_wrt (\<lambda>a b. a \<ge> b) (ritz_val s') \<and> ritz_val s' = rev (sort evals)) \<and>
         (rule s = SMALLEST_ALGE \<longrightarrow>
            sorted_wrt (\<lambda>a b. a \<le> b) (ritz_val s') \<and> ritz_val s' = sort evals) \<and>
         (rule s = BOTH_ENDS \<longrightarrow>
            take offset (ritz_val s') = take offset (rev (sort evals)) \<and>
            mset (take (nev s - offset) (drop offset (ritz_val s'))) =
              mset (drop (ncv s - (nev s - offset)) (rev (sort evals)))) \<and>
         s' = s\<lparr>ritz_val := ritz_val s', ritz_vec := ritz_vec s'\<rparr>)"
proof (intro impI)
  assume a: "dims_ok s \<and> nev s \<le> ncv s \<and> length (eig_eigenvalues E (fac_H s)) = ncv s"
  then have d: "dims_ok s" and n: "nev s \<le> ncv s"
    and le: "length (eig_eigenvalues E (fac_H s)) = ncv s" by simp_all
  let ?evals = "eig_eigenvalues E (fac_H s)"
  let ?evecs = "eig_eigenvectors E (fac_H s)"
  let ?s' = "retrieve_ritzpair E s"
  let ?off = "(nev s + 1) div 2"
  note M = retrieve_matching [OF d n, of E]
  have 1: "\<exists>p. mset p = mset [0..<ncv s] \<and> ritz_val ?s' = map (\<lambda>i. ?evals ! i) p \<and>
      ritz_vec ?s' = map (\<lambda>i. ?evecs ! i) (take (nev s) p)"
    using M by blast
  have 2: "mset (ritz_val ?s') = mset ?evals" if "rule s \<noteq> BOTH_ENDS"
    using retrieve_sorted(1) [OF d n that, of E] sorted_pairs_props(4) [OF le] by simp
  have 3: "sorted_wrt (\<lambda>a b. \<bar>a\<bar> \<ge> \<bar>b\<bar>) (ritz_val ?s')" if "rule s = LARGEST_MAGN"
    using that by (intro retrieve_sorted(2) [OF d n]) simp_all
  have 4: "sorted_wrt (\<lambda>a b. a \<ge> b) (ritz_val ?s') \<and> ritz_val ?s' = rev (sort ?evals)"
    if "rule s = LARGEST_ALGE"
  proof -
    have a: "sorted_wrt (\<lambda>a b. a \<ge> b) (ritz_val ?s')"
      using that by (intro retrieve_sorted(3) [OF d n]) simp_all
    moreover have "mset (ritz_val ?s') = mset ?evals" using that by (intro 2) simp
    ultimately have "ritz_val ?s' = rev (sort ?evals)" by (rule descending_is_rev_sort)
    with a show ?thesis by simp
  qed
  have 5: "sorted_wrt (\<lambda>a b. a \<le> b) (ritz_val ?s') \<and> ritz_val ?s' = sort ?evals"
    if "rule s = SMALLEST_ALGE"
  proof -
    have a: "sorted_wrt (\<lambda>a b. a \<le> b) (ritz_val ?s')"
      using that by (intro retrieve_sorted(4) [OF d n]) simp_all
    moreover have "mset (ritz_val ?s') = mset ?evals" using that by (intro 2) simp
    ultimately have "sort ?evals = ritz_val ?s'" by (intro properties_for_sort) simp_all
    with a show ?thesis by simp
  qed
  have 6: "take ?off (ritz_val ?s') = take ?off (rev (sort ?evals)) \<and>
      mset (take (nev s - ?off) (drop ?off (ritz_val ?s'))) =
        mset (drop (ncv s - (nev s - ?off)) (rev (sort ?evals)))" if "rule s = BOTH_ENDS"
    using retrieve_both_ends [OF d n that le] by blast
  have 7: "?s' = s\<lparr>ritz_val := ritz_val ?s', ritz_vec := ritz_vec ?s'\<rparr>"
    by (rule retrieve_fields(3) [OF d n])
  show "let evals = eig_eigenvalues E (fac_H s);
          evecs = eig_eigenvectors E (fac_H s);
          s' = retrieve_ritzpair E s;
          offset = (nev s + 1) div 2
      in (\<exists>p. mset p = mset [0..<ncv s] \<and>
              ritz_val s' = map (\<lambda>i. evals ! i) p \<and>
              ritz_vec s' = map (\<lambda>i. evecs ! i) (take (nev s) p)) \<and>
         (rule s = LARGEST_MAGN \<longrightarrow> sorted_wrt (\<lambda>a b. \<bar>a\<bar> \<ge> \<bar>b\<bar>) (ritz_val s')) \<and>
         (rule s = LARGEST_ALGE \<longrightarrow>
            sorted_wrt (\<lambda>a b. a \<ge> b) (ritz_val s') \<and> ritz_val s' = rev (sort evals)) \<and>
         (rule s = SMALLEST_ALGE \<longrightarrow>
            sorted_wrt (\<lambda>a b. a \<le> b) (ritz_val s') \<and> ritz_val s' = sort evals) \<and>
         (rule s = BOTH_ENDS \<longrightarrow>
            take offset (ritz_val s') = take offset (rev (sort evals)) \<and>
            mset (take (nev s - offset) (drop offset (ritz_val s'))) =
              mset (drop (ncv s - (nev s - offset)) (rev (sort evals)))) \<and>
         s' = s\<lparr>ritz_val := ritz_val s', ritz_vec := ritz_vec s'\<rparr>"
    unfolding Let_def using 1 3 4 5 6 7 by blast
qed

lemma ex_both_dims: "dims_ok ex_both" "nev ex_both \<le> ncv ex_both"
  by (simp_all add: dims_ok_def ex_both_def)

lemma ex_both_retrieve:
  "retrieve_ritzpair diag_env ex_both =
     ex_both\<lparr>ritz_val := [9, 7, 1, 3, 5],
             ritz_vec := [[0, 0, 0, 0, 1], [0, 0, 0, 1, 0], [1, 0, 0, 0, 0], [0, 1, 0, 0, 0]]\<rparr>"
proof -
  note F = retrieve_fields [OF ex_both_dims, of diag_env]
  have n: "nev ex_both = 4" by (simp add: ex_both_def)
  have v: "ritz_val (retrieve_ritzpair diag_env ex_both) = [9, 7, 1, 3, 5]"
    unfolding F(1) ex_both_final by simp
  have m: "ritz_vec (retrieve_ritzpair diag_env ex_both) =
      [[0, 0, 0, 0, 1], [0, 0, 0, 1, 0], [1, 0, 0, 0, 0], [0, 1, 0, 0, 0]]"
    unfolding F(2) ex_both_final ex_both_evals n by simp
  show ?thesis by (subst F(3)) (simp only: v m)
qed

lemma ex_solver2_retrieve:
  "retrieve_ritzpair ex_env (ex_solver2\<lparr>ritz_val := [0, 0], ritz_vec := [[0, 0]]\<rparr>) = ex_solver2"
  by (simp add: retrieve_ritzpair_def ex_solver2_def ex_solver_def ex_env_def Let_def
      std_sort_def for_loop_foldl eval_nat_numeral upt_rec)

lemma sort_odd: "rev (sort [1, 3, 5, 7, 9 :: real]) = [9, 7, 5, 3, 1]"
  by simp

lemma ex_shift_evals:
  "eig_eigenvalues diag_env (fac_H ex_shift_solver) = [1 / 26, 1, - (1 / 17)]"
  by (simp add: ex_shift_solver_def diag_env_def eval_nat_numeral upt_rec)

lemma sort_shift: "rev (sort [1 / 26, 1, - (1 / 17) :: real]) = [1, 1 / 26, - (1 / 17)]"
  by simp

text \<open>
  Instances: both ends on \<open>H = diag(1, 3, 5, 7, 9)\<close> with \<open>nev = 4\<close>, where the prefix
  is \<open>9, 7, 1, 3\<close>; the largest magnitude on the solver of \<open>diag(50, 25, 7)\<close>; and
  the largest algebraic values on \<open>H = diag(1/26, 1, -1/17)\<close>.
\<close>

theorem retrieve_ritzpair_spec_witness:
  "dims_ok ex_both \<and> nev ex_both \<le> ncv ex_both \<and>
   length (eig_eigenvalues diag_env (fac_H ex_both)) = ncv ex_both \<and>
   rule ex_both = BOTH_ENDS \<and>
   eig_eigenvalues diag_env (fac_H ex_both) = [1, 3, 5, 7, 9] \<and>
   retrieve_ritzpair diag_env ex_both =
     ex_both\<lparr>ritz_val := [9, 7, 1, 3, 5],
             ritz_vec := [[0, 0, 0, 0, 1], [0, 0, 0, 1, 0], [1, 0, 0, 0, 0], [0, 1, 0, 0, 0]]\<rparr> \<and>
   take ((nev ex_both + 1) div 2) (ritz_val (retrieve_ritzpair diag_env ex_both)) = [9, 7] \<and>
   mset (take (nev ex_both - (nev ex_both + 1) div 2)
           (drop ((nev ex_both + 1) div 2) (ritz_val (retrieve_ritzpair diag_env ex_both))))
     = mset [3, 1] \<and>
   dims_ok (ex_solver2\<lparr>ritz_val := [0, 0], ritz_vec := [[0, 0]]\<rparr>) \<and>
   rule ex_solver2 = LARGEST_MAGN \<and>
   retrieve_ritzpair ex_env (ex_solver2\<lparr>ritz_val := [0, 0], ritz_vec := [[0, 0]]\<rparr>) = ex_solver2 \<and>
   sorted_wrt (\<lambda>a b. \<bar>a\<bar> \<ge> \<bar>b\<bar>) (ritz_val ex_solver2) \<and>
   dims_ok ex_shift_solver \<and> nev ex_shift_solver \<le> ncv ex_shift_solver \<and>
   length (eig_eigenvalues diag_env (fac_H ex_shift_solver)) = ncv ex_shift_solver \<and>
   rule ex_shift_solver = LARGEST_ALGE \<and>
   ritz_val (retrieve_ritzpair diag_env ex_shift_solver) = [1, 1 / 26, - (1 / 17)]"
proof -
  let ?t = "ex_solver2\<lparr>ritz_val := [0, 0], ritz_vec := [[0, 0]]\<rparr>"
  have n: "nev ex_both = 4" "ncv ex_both = 5" "rule ex_both = BOTH_ENDS"
    by (simp_all add: ex_both_def)
  have le: "length (eig_eigenvalues diag_env (fac_H ex_both)) = ncv ex_both"
    by (simp add: ex_both_evals n)
  have t: "dims_ok ?t" "nev ?t \<le> ncv ?t" "rule ?t = LARGEST_MAGN"
    "length (eig_eigenvalues ex_env (fac_H ?t)) = ncv ?t"
    by (simp_all add: dims_ok_def ex_solver2_def ex_solver_def ex_env_def)
  have o: "(4 + 1) div 2 = (2 :: nat)" "4 - 2 = (2 :: nat)" "5 - 2 = (3 :: nat)" by simp_all
  from retrieve_ritzpair_spec [of ex_both diag_env] ex_both_dims le n(3)
  have "take ((nev ex_both + 1) div 2) (ritz_val (retrieve_ritzpair diag_env ex_both)) =
        take ((nev ex_both + 1) div 2) (rev (sort (eig_eigenvalues diag_env (fac_H ex_both))))"
    and "mset (take (nev ex_both - (nev ex_both + 1) div 2)
           (drop ((nev ex_both + 1) div 2) (ritz_val (retrieve_ritzpair diag_env ex_both)))) =
        mset (drop (ncv ex_both - (nev ex_both - (nev ex_both + 1) div 2))
           (rev (sort (eig_eigenvalues diag_env (fac_H ex_both)))))"
    unfolding Let_def by blast+
  then have b: "take ((nev ex_both + 1) div 2) (ritz_val (retrieve_ritzpair diag_env ex_both)) =
      [9, 7]"
    "mset (take (nev ex_both - (nev ex_both + 1) div 2)
           (drop ((nev ex_both + 1) div 2) (ritz_val (retrieve_ritzpair diag_env ex_both)))) =
      mset [3, 1]"
    unfolding ex_both_evals n o sort_odd by simp_all
  from retrieve_ritzpair_spec [of ?t ex_env] t
  have "sorted_wrt (\<lambda>a b. \<bar>a\<bar> \<ge> \<bar>b\<bar>) (ritz_val (retrieve_ritzpair ex_env ?t))"
    unfolding Let_def by blast
  then have c: "sorted_wrt (\<lambda>a b. \<bar>a\<bar> \<ge> \<bar>b\<bar>) (ritz_val ex_solver2)"
    unfolding ex_solver2_retrieve .
  have r: "rule ex_solver2 = LARGEST_MAGN" by (simp add: ex_solver2_def ex_solver_def)
  have u: "dims_ok ex_shift_solver" "nev ex_shift_solver \<le> ncv ex_shift_solver"
    "length (eig_eigenvalues diag_env (fac_H ex_shift_solver)) = ncv ex_shift_solver"
    "rule ex_shift_solver = LARGEST_ALGE"
    unfolding ex_shift_evals by (simp_all add: dims_ok_def ex_shift_solver_def)
  from retrieve_ritzpair_spec [of ex_shift_solver diag_env] u
  have "ritz_val (retrieve_ritzpair diag_env ex_shift_solver) =
      rev (sort (eig_eigenvalues diag_env (fac_H ex_shift_solver)))"
    unfolding Let_def by blast
  then have v: "ritz_val (retrieve_ritzpair diag_env ex_shift_solver) = [1, 1 / 26, - (1 / 17)]"
    unfolding ex_shift_evals sort_shift .
  show ?thesis
    using ex_both_dims le n(3) ex_both_evals(1) ex_both_retrieve b t(1) r ex_solver2_retrieve c
      u v
    by blast
qed

section \<open>Initialization\<close>

lemma matrix_operation_cong:
  "kind s = kind t \<Longrightarrow> op s = op t \<Longrightarrow> matrix_operation E s x = matrix_operation E t x"
  by (simp add: matrix_operation_def split: solver_kind.splits)









section \<open>The shift-and-invert solver\<close>

lemma matrix_operation_shift:
  "kind t = SymEigsShiftSolver_kind sg \<Longrightarrow>
   matrix_operation E t x = op_shift_solve E (op t) x"
  by (simp add: matrix_operation_def)

lemma matrix_operation_swap:
  "kind t = SymEigsShiftSolver_kind sg \<Longrightarrow>
   matrix_operation E t x =
     matrix_operation (E\<lparr>op_prod := op_shift_solve E\<rparr>) (t\<lparr>kind := SymEigsSolver_kind\<rparr>) x"
  by (simp add: matrix_operation_def)

lemma factorize_step_swap:
  assumes k: "kind t = SymEigsShiftSolver_kind sg"
  shows "factorize_step E i t =
     (factorize_step (E\<lparr>op_prod := op_shift_solve E\<rparr>) i (t\<lparr>kind := SymEigsSolver_kind\<rparr>))
       \<lparr>kind := SymEigsShiftSolver_kind sg\<rparr>"
  using k by (simp add: factorize_step_def Let_def matrix_operation_swap [OF k])

lemma foldl_factorize_step_swap:
  "kind t = SymEigsShiftSolver_kind sg \<Longrightarrow>
   foldl (\<lambda>t i. factorize_step E i t) t js =
     (foldl (\<lambda>t i. factorize_step (E\<lparr>op_prod := op_shift_solve E\<rparr>) i t)
        (t\<lparr>kind := SymEigsSolver_kind\<rparr>) js)\<lparr>kind := SymEigsShiftSolver_kind sg\<rparr>"
proof (induction js arbitrary: t)
  case Nil
  then show ?case by simp
next
  case (Cons j js)
  let ?E' = "E\<lparr>op_prod := op_shift_solve E\<rparr>"
  let ?u = "factorize_step ?E' j (t\<lparr>kind := SymEigsSolver_kind\<rparr>)"
  have u: "kind ?u = SymEigsSolver_kind" by (simp add: step_consts)
  have 1: "factorize_step E j t = ?u\<lparr>kind := SymEigsShiftSolver_kind sg\<rparr>"
    using Cons.prems by (rule factorize_step_swap)
  have 2: "(?u\<lparr>kind := SymEigsShiftSolver_kind sg\<rparr>)\<lparr>kind := SymEigsSolver_kind\<rparr> = ?u"
    using u by simp
  have "kind (?u\<lparr>kind := SymEigsShiftSolver_kind sg\<rparr>) = SymEigsShiftSolver_kind sg" by simp
  from Cons.IH [OF this] show ?case
    unfolding foldl_Cons 1 2 .
qed

lemma factorize_from_swap:
  assumes k: "kind t = SymEigsShiftSolver_kind sg"
  shows "factorize_from E from_k to_m fk t =
     (factorize_from (E\<lparr>op_prod := op_shift_solve E\<rparr>) from_k to_m fk
        (t\<lparr>kind := SymEigsSolver_kind\<rparr>))\<lparr>kind := SymEigsShiftSolver_kind sg\<rparr>"
proof (cases "to_m \<le> from_k")
  case True
  then show ?thesis using k by (simp add: factorize_from_def)
next
  case False
  have "kind (t\<lparr>fac_f := fk\<rparr>) = SymEigsShiftSolver_kind sg" using k by simp
  note F = foldl_factorize_step_swap [OF this, of E "[from_k..<to_m]"]
  have e: "t\<lparr>fac_f := fk, kind := SymEigsSolver_kind\<rparr> =
      t\<lparr>kind := SymEigsSolver_kind, fac_f := fk\<rparr>"
    by simp
  from False show ?thesis
    unfolding factorize_from_def for_loop_foldl F e by simp
qed

lemma init_swap:
  assumes k: "kind t = SymEigsShiftSolver_kind sg"
  shows "init E x t =
     (init (E\<lparr>op_prod := op_shift_solve E\<rparr>) x (t\<lparr>kind := SymEigsSolver_kind\<rparr>))
       \<lparr>kind := SymEigsShiftSolver_kind sg\<rparr>"
  using k by (simp add: init_def Let_def matrix_operation_def)

lemma shift_sort_values:
  fixes E :: "'o env" and t :: "'o solver"
  assumes k: "kind t = SymEigsShiftSolver_kind sg" and d: "dims_ok t" and n: "nev t \<le> ncv t"
  defines "vals \<equiv> map (\<lambda>x. 1 / x + sg) (take (nev t) (ritz_val t))"
  defines "t' \<equiv> sort_ritzpair E t"
  shows "sort_ritzpair E t =
           base_sort_ritzpair E (t\<lparr>ritz_val := vals @ drop (nev t) (ritz_val t)\<rparr>)"
    and "mset (take (nev t) (ritz_val t')) = mset vals"
    and "sorted_wrt (\<lambda>a b. \<bar>a\<bar> \<ge> \<bar>b\<bar>) (take (nev t) (ritz_val t'))"
    and "drop (nev t) (ritz_val t') = drop (nev t) (ritz_val t)"
proof -
  let ?t1 = "t\<lparr>ritz_val := vals @ drop (nev t) (ritz_val t)\<rparr>"
  let ?pairs = "std_sort (EigenvalueComparator LARGEST_MAGN)
                     (map (\<lambda>i. (ritz_val ?t1 ! i, i)) [0..<nev ?t1])"
  from d n have lv: "length (ritz_val t) = ncv t" and lvals: "length vals = nev t"
    by (simp_all add: dims_ok_def vals_def)
  show e: "sort_ritzpair E t = base_sort_ritzpair E ?t1"
    using k by (simp add: sort_ritzpair_def vals_def Let_def)
  have d1: "dims_ok ?t1" using d n lv by (simp add: dims_ok_def vals_def)
  have n1: "nev ?t1 \<le> ncv ?t1" using n by simp
  have rv: "ritz_val t' = map fst ?pairs @ drop (nev t) (ritz_val ?t1)"
    unfolding t'_def e using base_sort_fields(1) [OF d1 n1, of E] by simp
  have lp: "length ?pairs = nev t"
    using sorted_pairs_facts(1) [of LARGEST_MAGN "ritz_val ?t1" "nev ?t1"] by simp
  have tk: "take (nev t) (ritz_val t') = map fst ?pairs" using lp by (simp add: rv)
  have "mset (map fst ?pairs) = mset (map (\<lambda>i. ritz_val ?t1 ! i) [0..<nev ?t1])"
    by (rule sorted_pairs_facts(2))
  also have "map (\<lambda>i. ritz_val ?t1 ! i) [0..<nev ?t1] = take (nev ?t1) (ritz_val ?t1)"
    using lvals by (intro take_as_map_nth) simp
  also have "\<dots> = vals" using lvals by simp
  finally have m: "mset (map fst ?pairs) = mset vals" .
  show "mset (take (nev t) (ritz_val t')) = mset vals" unfolding tk by (rule m)
  have "sorted_wrt (\<lambda>a b. \<not> EigenvalueComparator LARGEST_MAGN b a) ?pairs"
    by (rule sorted_pairs_facts(5))
  then show "sorted_wrt (\<lambda>a b. \<bar>a\<bar> \<ge> \<bar>b\<bar>) (take (nev t) (ritz_val t'))"
    unfolding tk by (rule sorted_magn_values)
  show "drop (nev t) (ritz_val t') = drop (nev t) (ritz_val t)"
    using lp lvals by (simp add: rv)
qed

text \<open>
  C6. The constructor of the shift-and-invert solver is the base constructor followed by
  \<open>set_shift(sigma)\<close> on the operator. In a solver of this class every matrix-vector
  step is the operator's shift solve: \<open>matrix_operation\<close> is, and \<open>init\<close> and
  \<open>factorize_from\<close>, the only functions that call it, compute what the base class
  computes when the operator's product is replaced by its shift solve. When none of the
  first \<open>nev\<close> Ritz values is zero, its final sort replaces each of them, \<open>x\<close>, by
  \<open>1 / x + sigma\<close> and then runs the base sort: on a solver with the constructor's
  dimensions and \<open>nev \<le> ncv\<close> the first \<open>nev\<close> Ritz values become the transformed
  values in decreasing magnitude, and the others are kept. (For a Ritz value zero the
  quotient is an infinity in the source and has no real value.)
\<close>

theorem shift_solver_spec:
  "(SymEigsShiftSolver E r op_in nev_in ncv_in sg = Inr s \<longrightarrow>
      kind s = SymEigsShiftSolver_kind sg \<and> op s = op_set_shift E op_in sg \<and>
      SymEigsSolver E r op_in nev_in ncv_in =
        Inr (s\<lparr>kind := SymEigsSolver_kind, op := op_in\<rparr>)) \<and>
   (kind t = SymEigsShiftSolver_kind sg \<longrightarrow>
      matrix_operation E t x = op_shift_solve E (op t) x \<and>
      init E x t =
        (init (E\<lparr>op_prod := op_shift_solve E\<rparr>) x (t\<lparr>kind := SymEigsSolver_kind\<rparr>))
          \<lparr>kind := SymEigsShiftSolver_kind sg\<rparr> \<and>
      factorize_from E from_k to_m x t =
        (factorize_from (E\<lparr>op_prod := op_shift_solve E\<rparr>) from_k to_m x
           (t\<lparr>kind := SymEigsSolver_kind\<rparr>))\<lparr>kind := SymEigsShiftSolver_kind sg\<rparr>) \<and>
   (kind t = SymEigsShiftSolver_kind sg \<and> 0 \<notin> set (take (nev t) (ritz_val t)) \<longrightarrow>
      sort_ritzpair E t =
        base_sort_ritzpair E
          (t\<lparr>ritz_val := map (\<lambda>x. 1 / x + sg) (take (nev t) (ritz_val t))
                            @ drop (nev t) (ritz_val t)\<rparr>)) \<and>
   (kind t = SymEigsShiftSolver_kind sg \<and> 0 \<notin> set (take (nev t) (ritz_val t)) \<and>
    dims_ok t \<and> nev t \<le> ncv t \<longrightarrow>
      mset (take (nev t) (ritz_val (sort_ritzpair E t))) =
        mset (map (\<lambda>x. 1 / x + sg) (take (nev t) (ritz_val t))) \<and>
      sorted_wrt (\<lambda>a b. \<bar>a\<bar> \<ge> \<bar>b\<bar>) (take (nev t) (ritz_val (sort_ritzpair E t))) \<and>
      drop (nev t) (ritz_val (sort_ritzpair E t)) = drop (nev t) (ritz_val t))"
proof (intro conjI impI)
  assume "SymEigsShiftSolver E r op_in nev_in ncv_in sg = Inr s"
  then show "kind s = SymEigsShiftSolver_kind sg" "op s = op_set_shift E op_in sg"
    "SymEigsSolver E r op_in nev_in ncv_in = Inr (s\<lparr>kind := SymEigsSolver_kind, op := op_in\<rparr>)"
    by (auto simp: SymEigsShiftSolver_def SymEigsSolver_def Let_def)
next
  assume k: "kind t = SymEigsShiftSolver_kind sg"
  show "matrix_operation E t x = op_shift_solve E (op t) x"
    using k by (rule matrix_operation_shift)
  show "init E x t =
        (init (E\<lparr>op_prod := op_shift_solve E\<rparr>) x (t\<lparr>kind := SymEigsSolver_kind\<rparr>))
          \<lparr>kind := SymEigsShiftSolver_kind sg\<rparr>"
    using k by (rule init_swap)
  show "factorize_from E from_k to_m x t =
        (factorize_from (E\<lparr>op_prod := op_shift_solve E\<rparr>) from_k to_m x
           (t\<lparr>kind := SymEigsSolver_kind\<rparr>))\<lparr>kind := SymEigsShiftSolver_kind sg\<rparr>"
    using k by (rule factorize_from_swap)
next
  assume "kind t = SymEigsShiftSolver_kind sg \<and> 0 \<notin> set (take (nev t) (ritz_val t))"
  then show "sort_ritzpair E t =
        base_sort_ritzpair E
          (t\<lparr>ritz_val := map (\<lambda>x. 1 / x + sg) (take (nev t) (ritz_val t))
                            @ drop (nev t) (ritz_val t)\<rparr>)"
    by (simp add: sort_ritzpair_def Let_def)
next
  assume a: "kind t = SymEigsShiftSolver_kind sg \<and> 0 \<notin> set (take (nev t) (ritz_val t)) \<and>
    dims_ok t \<and> nev t \<le> ncv t"
  then have k: "kind t = SymEigsShiftSolver_kind sg" and d: "dims_ok t" and n: "nev t \<le> ncv t"
    by simp_all
  note S = shift_sort_values [OF k d n, of E]
  show "mset (take (nev t) (ritz_val (sort_ritzpair E t))) =
        mset (map (\<lambda>x. 1 / x + sg) (take (nev t) (ritz_val t)))" by (rule S(2))
  show "sorted_wrt (\<lambda>a b. \<bar>a\<bar> \<ge> \<bar>b\<bar>) (take (nev t) (ritz_val (sort_ritzpair E t)))"
    by (rule S(3))
  show "drop (nev t) (ritz_val (sort_ritzpair E t)) = drop (nev t) (ritz_val t)"
    by (rule S(4))
qed

lemma ex_shift_sort:
  "sort_ritzpair diag_env ex_shift_solver =
     ex_shift_solver\<lparr>ritz_val := [50, 25, - (1 / 17)], ritz_vec := [[1, 0, 0], [0, 1, 0]],
                     ritz_conv := [True, True]\<rparr>"
  by (simp add: sort_ritzpair_def base_sort_ritzpair_def ex_shift_solver_def Let_def
      std_sort_def for_loop_foldl sort_step_def diag_env_def eval_nat_numeral upt_rec)

text \<open>
  An instance: on \<open>diag(50, 25, 7, 3)\<close> with the shift \<open>24\<close>, the Ritz values \<open>1\<close> and
  \<open>1/26\<close> are transformed to \<open>25\<close> and \<open>50\<close> and sorted to \<open>50, 25\<close>.
\<close>

theorem shift_solver_spec_witness:
  "SymEigsShiftSolver diag_env LARGEST_ALGE \<lparr>entries = [50, 25, 7, 3], shift = 0\<rparr> 2 3 24 =
     Inr (ex_shift_solver\<lparr>fac_V := replicate 3 [0, 0, 0, 0], fac_H := replicate 3 [0, 0, 0],
            ritz_val := [0, 0, 0], ritz_vec := replicate 2 [0, 0, 0],
            ritz_conv := [False, False]\<rparr>) \<and>
   op ex_shift_solver = op_set_shift diag_env \<lparr>entries = [50, 25, 7, 3], shift = 0\<rparr> 24 \<and>
   kind ex_shift_solver = SymEigsShiftSolver_kind 24 \<and> dims_ok ex_shift_solver \<and>
   nev ex_shift_solver \<le> ncv ex_shift_solver \<and>
   0 \<notin> set (take (nev ex_shift_solver) (ritz_val ex_shift_solver)) \<and>
   matrix_operation diag_env ex_shift_solver [26, 1, 17, 21] = [1, 1, - 1, - 1] \<and>
   map (\<lambda>x. 1 / x + 24) (take (nev ex_shift_solver) (ritz_val ex_shift_solver)) = [25, 50] \<and>
   sort_ritzpair diag_env ex_shift_solver =
     ex_shift_solver\<lparr>ritz_val := [50, 25, - (1 / 17)], ritz_vec := [[1, 0, 0], [0, 1, 0]],
                     ritz_conv := [True, True]\<rparr> \<and>
   sorted_wrt (\<lambda>a b. \<bar>a\<bar> \<ge> \<bar>b\<bar>)
     (take (nev ex_shift_solver) (ritz_val (sort_ritzpair diag_env ex_shift_solver)))"
proof -
  let ?fresh = "ex_shift_solver\<lparr>fac_V := replicate 3 [0, 0, 0, 0], fac_H := replicate 3 [0, 0, 0],
            ritz_val := [0, 0, 0], ritz_vec := replicate 2 [0, 0, 0],
            ritz_conv := [False, False]\<rparr>"
  have c: "SymEigsShiftSolver diag_env LARGEST_ALGE \<lparr>entries = [50, 25, 7, 3], shift = 0\<rparr> 2 3 24 =
     Inr ?fresh"
    by (simp add: SymEigsShiftSolver_def SymEigsSolver_def ex_shift_solver_def diag_env_def
        eval_nat_numeral)
  have k: "kind ex_shift_solver = SymEigsShiftSolver_kind 24" "dims_ok ex_shift_solver"
    "nev ex_shift_solver \<le> ncv ex_shift_solver"
    "0 \<notin> set (take (nev ex_shift_solver) (ritz_val ex_shift_solver))"
    by (simp_all add: ex_shift_solver_def dims_ok_def eval_nat_numeral)
  note T = shift_solver_spec [where E = diag_env and r = LARGEST_ALGE
      and op_in = "\<lparr>entries = [50, 25, 7, 3], shift = 0\<rparr>" and nev_in = 2 and ncv_in = 3
      and sg = 24 and s = ?fresh and t = ex_shift_solver and x = "[26, 1, 17, 21]"]
  from T c have o: "op ?fresh = op_set_shift diag_env \<lparr>entries = [50, 25, 7, 3], shift = 0\<rparr> 24"
    by blast
  from T k have m: "matrix_operation diag_env ex_shift_solver [26, 1, 17, 21] =
      op_shift_solve diag_env (op ex_shift_solver) [26, 1, 17, 21]"
    by blast
  from T k have s: "sorted_wrt (\<lambda>a b. \<bar>a\<bar> \<ge> \<bar>b\<bar>)
     (take (nev ex_shift_solver) (ritz_val (sort_ritzpair diag_env ex_shift_solver)))"
    by blast
  have v: "map (\<lambda>x. 1 / x + 24) (take (nev ex_shift_solver) (ritz_val ex_shift_solver)) = [25, 50]"
    by (simp add: ex_shift_solver_def eval_nat_numeral)
  have m': "op_shift_solve diag_env (op ex_shift_solver) [26, 1, 17, 21] = [1, 1, - 1, - 1]"
    by (simp add: ex_shift_solver_def diag_env_def)
  show ?thesis
    using c k o m s v m' ex_shift_sort by simp
qed

section \<open>Results\<close>

lemma foldl_collect:
  "j + length (filter P js) \<le> length res \<Longrightarrow>
   foldl (\<lambda>a i. case a of (res, j) \<Rightarrow> if P i then (res[j := g i], j + 1) else (res, j))
     (res, j) js =
     (take j res @ map g (filter P js) @ drop (j + length (filter P js)) res,
      j + length (filter P js))"
proof (induction js arbitrary: res j)
  case Nil
  then show ?case by simp
next
  case (Cons i js)
  show ?case
  proof (cases "P i")
    case True
    with Cons.prems have j: "j < length res"
      and l: "(j + 1) + length (filter P js) \<le> length (res[j := g i])" by simp_all
    have t: "take (j + 1) (res[j := g i]) = take j res @ [g i]"
      using j by (simp add: take_Suc_conv_app_nth)
    have d: "drop (j + 1 + length (filter P js)) (res[j := g i]) =
        drop (j + 1 + length (filter P js)) res"
      by simp
    show ?thesis
      using True Cons.IH [OF l] by (simp add: t d del: One_nat_def) simp
  next
    case False
    with Cons.prems have "j + length (filter P js) \<le> length res" by simp
    from Cons.IH [OF this] False show ?thesis by simp
  qed
qed

lemma count_conv_filter: "count_conv bs = length (filter (\<lambda>i. bs ! i) [0..<length bs])"
proof -
  have "count_conv bs = length (filter (\<lambda>b. b) bs)"
    by (induction bs) (simp_all add: count_conv_def)
  also have "filter (\<lambda>b. b) bs = map (\<lambda>i. bs ! i) (filter (\<lambda>i. bs ! i) [0..<length bs])"
    using filter_map [of "\<lambda>b. b" "\<lambda>i. bs ! i" "[0..<length bs]"] map_nth [of bs]
    by (simp add: comp_def)
  finally show ?thesis by simp
qed

lemma collect_all:
  assumes l: "length bs = n"
  shows "fst (for_loop 0 n
                (\<lambda>i (res, j). if bs ! i then (res[j := g i], j + 1) else (res, j))
                (replicate (count_conv bs) u, 0)) =
         map g (filter (\<lambda>i. bs ! i) [0..<n])"
proof -
  let ?sel = "filter (\<lambda>i. bs ! i) [0..<n]"
  have c: "count_conv bs = length ?sel" using l by (simp add: count_conv_filter)
  have "0 + length ?sel \<le> length (replicate (count_conv bs) u)" by (simp add: c)
  from foldl_collect [OF this, of g]
  show ?thesis by (simp add: for_loop_foldl c)
qed

lemma eigenvalues_filter:
  assumes d: "dims_ok s"
  shows "eigenvalues E s = map (\<lambda>i. ritz_val s ! i) (filter (\<lambda>i. ritz_conv s ! i) [0..<nev s])"
proof -
  from d have l: "length (ritz_conv s) = nev s" by (simp add: dims_ok_def)
  have c: "count_conv (ritz_conv s) = length (filter (\<lambda>i. ritz_conv s ! i) [0..<nev s])"
    using l by (simp add: count_conv_filter)
  show ?thesis
  proof (cases "count_conv (ritz_conv s) = 0")
    case True
    with c show ?thesis by (simp add: eigenvalues_def)
  next
    case False
    then show ?thesis
      using collect_all [OF l, of "\<lambda>i. ritz_val s ! i" "uninit E"]
      by (simp add: eigenvalues_def Let_def)
  qed
qed

lemma eigenvectors_filter:
  assumes d: "dims_ok s"
  shows "eigenvectors E s =
    map (\<lambda>i. times_vec (dim_n s) (fac_V s) (ritz_vec s ! i))
      (filter (\<lambda>i. ritz_conv s ! i) [0..<nev s])"
proof -
  from d have l: "length (ritz_conv s) = nev s" by (simp add: dims_ok_def)
  have c: "count_conv (ritz_conv s) = length (filter (\<lambda>i. ritz_conv s ! i) [0..<nev s])"
    using l by (simp add: count_conv_filter)
  show ?thesis
  proof (cases "count_conv (ritz_conv s) = 0")
    case True
    with c show ?thesis by (simp add: eigenvectors_def)
  next
    case False
    then show ?thesis
      using collect_all [OF l, of "\<lambda>i. ritz_vec s ! i" "replicate (ncv s) (uninit E)"]
      by (simp add: eigenvectors_def Let_def times_mat_def comp_def)
  qed
qed

lemma no_conv_empty:
  "count_conv (ritz_conv s) = 0 \<Longrightarrow> eigenvalues E s = [] \<and> eigenvectors E s = []"
  by (simp add: eigenvalues_def eigenvectors_def)

lemma foldl_factorize_step_flags:
  "ritz_conv (foldl (\<lambda>t i. factorize_step E i t) t js) = ritz_conv t \<and>
   nev (foldl (\<lambda>t i. factorize_step E i t) t js) = nev t"
  by (induction js arbitrary: t) (simp_all add: step_consts)

lemma factorize_from_flags:
  "ritz_conv (factorize_from E from_k to_m fk s) = ritz_conv s"
  "nev (factorize_from E from_k to_m fk s) = nev s"
  by (simp_all add: factorize_from_def for_loop_foldl foldl_factorize_step_flags)

lemma retrieve_ritzpair_flags:
  "ritz_conv (retrieve_ritzpair E s) = ritz_conv s" "nev (retrieve_ritzpair E s) = nev s"
  by (simp_all add: retrieve_ritzpair_def Let_def)

lemma base_sort_flags:
  fixes E :: "'o env" and u :: "'o solver"
  shows "ritz_conv (base_sort_ritzpair E u) =
     map (\<lambda>p. ritz_conv u ! snd p)
       (std_sort (EigenvalueComparator LARGEST_MAGN) (map (\<lambda>i. (ritz_val u ! i, i)) [0..<nev u]))"
proof -
  let ?pairs = "std_sort (EigenvalueComparator LARGEST_MAGN)
      (map (\<lambda>i. (ritz_val u ! i, i)) [0..<nev u])"
  have lp: "length ?pairs = nev u" by (rule sorted_pairs_facts(1))
  let ?L = "for_loop 0 (nev u) (sort_step u ?pairs)
      (ritz_val u, replicate (nev u) (replicate (ncv u) (uninit E)),
       replicate (nev u) (uninit_flag E))"
  obtain a b c where L: "?L = (a, b, c)" by (cases ?L)
  have "snd (snd ?L) = map (\<lambda>p. ritz_conv u ! snd p) ?pairs"
    using lp map_nth_fst [of ?pairs "nev u" "\<lambda>p. ritz_conv u ! snd p"]
    by (simp add: for_loop_foldl foldl_sort_step foldl_update_prefix)
  then have "c = map (\<lambda>p. ritz_conv u ! snd p) ?pairs" by (simp add: L)
  then show ?thesis
    unfolding base_sort_ritzpair_def Let_def L by simp
qed

lemma count_conv_list_all: "list_all (\<lambda>b. \<not> b) bs \<Longrightarrow> count_conv bs = 0"
  by (induction bs) (simp_all add: count_conv_def)

lemma count_conv_all_False: "(\<And>b. b \<in> set bs \<Longrightarrow> \<not> b) \<Longrightarrow> count_conv bs = 0"
  by (rule count_conv_list_all) (auto simp: list_all_iff)

lemma base_sort_no_conv:
  fixes E :: "'o env" and u :: "'o solver"
  assumes f: "ritz_conv u = replicate (nev u) False"
  shows "count_conv (ritz_conv (base_sort_ritzpair E u)) = 0"
proof (rule count_conv_all_False)
  fix b assume "b \<in> set (ritz_conv (base_sort_ritzpair E u))"
  then obtain p where p: "p \<in> set (std_sort (EigenvalueComparator LARGEST_MAGN)
      (map (\<lambda>i. (ritz_val u ! i, i)) [0..<nev u]))" and b: "b = ritz_conv u ! snd p"
    unfolding base_sort_flags by auto
  from sorted_pairs_facts(4) [OF p] have "snd p < nev u" by simp
  then show "\<not> b" by (simp add: b f)
qed

lemma sort_no_conv:
  fixes E :: "'o env" and u :: "'o solver"
  assumes f: "ritz_conv u = replicate (nev u) False"
  shows "count_conv (ritz_conv (sort_ritzpair E u)) = 0"
proof (cases "kind u")
  case SymEigsSolver_kind
  then show ?thesis using base_sort_no_conv [OF f, of E] by (simp add: sort_ritzpair_def)
next
  case (SymEigsShiftSolver_kind sg)
  let ?u1 = "u\<lparr>ritz_val := map (\<lambda>x. 1 / x + sg) (take (nev u) (ritz_val u))
      @ drop (nev u) (ritz_val u)\<rparr>"
  have "ritz_conv ?u1 = replicate (nev ?u1) False" using f by simp
  from base_sort_no_conv [OF this, of E] SymEigsShiftSolver_kind
  show ?thesis by (simp add: sort_ritzpair_def Let_def)
qed

lemma compute_zero_no_conv:
  fixes E :: "'o env" and s0 :: "'o solver"
  assumes d: "dims_ok s0"
  shows "count_conv (ritz_conv (snd (compute E 0 tol (init E seed s0)))) = 0"
proof -
  let ?s = "init E seed s0"
  let ?u = "retrieve_ritzpair E (factorize_from E 1 (ncv ?s) (fac_f ?s) ?s)"
  from d have "length (ritz_conv s0) = nev s0" by (simp add: dims_ok_def)
  then have "ritz_conv ?s = replicate (nev ?s) False"
    by (auto simp: init_def Let_def intro!: nth_equalityI)
  then have "ritz_conv ?u = replicate (nev ?u) False"
    by (simp add: retrieve_ritzpair_flags factorize_from_flags)
  then have "count_conv (ritz_conv (sort_ritzpair E ?u)) = 0" by (rule sort_no_conv)
  then show ?thesis by (simp add: compute_at_zero)
qed

text \<open>
  C8. On a solver with the constructor's dimensions, \<open>eigenvalues\<close> returns the Ritz
  values \<open>ritz_val[i]\<close> of the indices \<open>i < nev\<close> whose flag is set, in increasing
  \<open>i\<close>, and \<open>eigenvectors\<close> returns \<open>V * ritz_vec.col(i)\<close> for the same indices in the
  same order. When no flag is set both return an empty result; this is the case after
  \<open>init\<close> and \<open>compute\<close> with \<open>maxit = 0\<close>.
\<close>

theorem eigen_results:
  "(dims_ok s \<longrightarrow>
      eigenvalues E s =
        map (\<lambda>i. ritz_val s ! i) (filter (\<lambda>i. ritz_conv s ! i) [0..<nev s]) \<and>
      eigenvectors E s =
        map (\<lambda>i. times_vec (dim_n s) (fac_V s) (ritz_vec s ! i))
          (filter (\<lambda>i. ritz_conv s ! i) [0..<nev s])) \<and>
   (count_conv (ritz_conv s) = 0 \<longrightarrow> eigenvalues E s = [] \<and> eigenvectors E s = []) \<and>
   (dims_ok s0 \<longrightarrow>
      eigenvalues E (snd (compute E 0 tol (init E seed s0))) = [] \<and>
      eigenvectors E (snd (compute E 0 tol (init E seed s0))) = [])"
  using eigenvalues_filter [of s E] eigenvectors_filter [of s E] no_conv_empty [of s E]
    no_conv_empty [OF compute_zero_no_conv, where ?s0.1 = s0 and E1 = E and tol1 = tol
      and seed1 = seed and E = E]
  by blast

lemma ex_results:
  "eigenvalues diag_env
     (ex_shift_solver\<lparr>ritz_val := [50, 25, - (1 / 17)], ritz_vec := [[1, 0, 0], [0, 1, 0]],
        ritz_conv := [False, True]\<rparr>) = [25]"
  "eigenvectors diag_env
     (ex_shift_solver\<lparr>ritz_val := [50, 25, - (1 / 17)], ritz_vec := [[1, 0, 0], [0, 1, 0]],
        ritz_conv := [False, True]\<rparr>) = [[0, 1, 0, 0]]"
  by (simp_all add: eigenvalues_def eigenvectors_def count_conv_def ex_shift_solver_def
      for_loop_foldl Let_def times_mat_def times_vec_def diag_env_def eval_nat_numeral upt_rec)

text \<open>
  Instances: a solver whose second flag alone is set, the solver just initialized, and
  \<open>compute\<close> with \<open>maxit = 0\<close>.
\<close>

theorem eigen_results_witness:
  "dims_ok (ex_shift_solver\<lparr>ritz_val := [50, 25, - (1 / 17)],
      ritz_vec := [[1, 0, 0], [0, 1, 0]], ritz_conv := [False, True]\<rparr>) \<and>
   eigenvalues diag_env
     (ex_shift_solver\<lparr>ritz_val := [50, 25, - (1 / 17)], ritz_vec := [[1, 0, 0], [0, 1, 0]],
        ritz_conv := [False, True]\<rparr>) = [25] \<and>
   eigenvectors diag_env
     (ex_shift_solver\<lparr>ritz_val := [50, 25, - (1 / 17)], ritz_vec := [[1, 0, 0], [0, 1, 0]],
        ritz_conv := [False, True]\<rparr>) = [[0, 1, 0, 0]] \<and>
   count_conv (ritz_conv ex_solver) = 0 \<and>
   eigenvalues diag_env ex_solver = [] \<and> eigenvectors diag_env ex_solver = [] \<and>
   dims_ok ex_fresh \<and>
   eigenvalues diag_env
     (snd (compute diag_env 0 (1 / 10 ^ 10) (init diag_env [3 / 50, 4 / 25, 0] ex_fresh))) = [] \<and>
   eigenvectors diag_env
     (snd (compute diag_env 0 (1 / 10 ^ 10) (init diag_env [3 / 50, 4 / 25, 0] ex_fresh))) = []"
proof -
  let ?t = "ex_shift_solver\<lparr>ritz_val := [50, 25, - (1 / 17)],
      ritz_vec := [[1, 0, 0], [0, 1, 0]], ritz_conv := [False, True]\<rparr>"
  have d: "dims_ok ?t" "dims_ok ex_fresh"
    by (simp_all add: dims_ok_def ex_shift_solver_def ex_fresh_def ex_solver_def)
  have c: "count_conv (ritz_conv ex_solver) = 0" by (simp add: ex_solver_def count_conv_def)
  note T1 = eigen_results [where s = ex_solver and E = diag_env and ?s0.0 = ex_fresh
      and tol = "1 / 10 ^ 10" and seed = "[3 / 50, 4 / 25, 0]"]
  from T1 c d have r:
    "eigenvalues diag_env ex_solver = []" "eigenvectors diag_env ex_solver = []"
    "eigenvalues diag_env
     (snd (compute diag_env 0 (1 / 10 ^ 10) (init diag_env [3 / 50, 4 / 25, 0] ex_fresh))) = []"
    "eigenvectors diag_env
     (snd (compute diag_env 0 (1 / 10 ^ 10) (init diag_env [3 / 50, 4 / 25, 0] ex_fresh))) = []"
    by blast+
  show ?thesis
    using d c r ex_results by simp
qed

section \<open>Breakdown\<close>














section \<open>The value returned by the driving loop\<close>

text \<open>
  C1. \<open>compute\<close> factorizes from step \<open>1\<close> to \<open>ncv\<close> with the residual as the seed,
  retrieves the Ritz pairs, runs the restart loop from the counter \<open>0\<close>, sorts the
  result of the loop whichever way the loop ends, and returns the counter plus one. When
  the loop ends by \<open>break\<close>, all flags are set and the value returned is the number of
  iterations performed, the terminating one included. When it ends because the counter
  reaches \<open>maxit\<close>, the value returned is one more than the number of iterations
  performed: \<open>maxit + 1\<close> for \<open>maxit \<ge> 0\<close>, and \<open>1\<close> for \<open>maxit = 0\<close>, where no
  iteration is performed.
\<close>

theorem compute_iteration_count:
  "(let s2 = retrieve_ritzpair E (factorize_from E 1 (ncv s) (fac_f s) s);
        i = fst (compute_loop E maxit tol 0 s2);
        s3 = snd (compute_loop E maxit tol 0 s2)
    in compute E maxit tol s = (i + 1, sort_ritzpair E s3) \<and>
       (i < maxit \<longrightarrow>
          list_all (\<lambda>b. b) (ritz_conv s3) \<and>
          fst (compute E maxit tol s) = iterations_performed E maxit tol 0 s2) \<and>
       (\<not> i < maxit \<longrightarrow>
          fst (compute E maxit tol s) = iterations_performed E maxit tol 0 s2 + 1) \<and>
       (0 \<le> maxit \<and> \<not> i < maxit \<longrightarrow> fst (compute E maxit tol s) = maxit + 1)) \<and>
   compute E 0 tol s =
     (1, sort_ritzpair E (retrieve_ritzpair E (factorize_from E 1 (ncv s) (fac_f s) s))) \<and>
   iterations_performed E 0 tol 0 t = 0"
proof -
  let ?s2 = "retrieve_ritzpair E (factorize_from E 1 (ncv s) (fac_f s) s)"
  let ?i = "fst (compute_loop E maxit tol 0 ?s2)"
  let ?s3 = "snd (compute_loop E maxit tol 0 ?s2)"
  have c: "compute E maxit tol s = (?i + 1, sort_ritzpair E ?s3)"
    by (simp add: compute_def Let_def split: prod.splits)
  note n = compute_loop_count [of E maxit tol 0 ?s2]
  note b = compute_loop_bounds [of 0 E maxit tol ?s2]
  have 1: "list_all (\<lambda>b. b) (ritz_conv ?s3) \<and>
      fst (compute E maxit tol s) = iterations_performed E maxit tol 0 ?s2" if "?i < maxit"
    using that n compute_loop_break [OF that] by (simp add: c)
  have 2: "fst (compute E maxit tol s) = iterations_performed E maxit tol 0 ?s2 + 1"
    if "\<not> ?i < maxit"
    using that n by (simp add: c)
  have 3: "fst (compute E maxit tol s) = maxit + 1" if "0 \<le> maxit \<and> \<not> ?i < maxit"
    using that b by (simp add: c)
  have 4: "iterations_performed E 0 tol 0 t = 0"
    by (simp add: iterations_performed.simps [of E 0 tol 0 t])
  show ?thesis
    unfolding Let_def using c 1 2 3 4 compute_at_zero [of E tol s] by blast
qed

lemma ex_env_step:
  "factorize_step ex_env 1 ex_solver =
     ex_solver2\<lparr>ritz_val := [0, 0], ritz_vec := [[0, 0]]\<rparr>"
  by (simp add: factorize_step_def ex_env_def ex_solver2_def ex_eval sqrt_144)

lemma ex_env_first:
  "retrieve_ritzpair ex_env (factorize_from ex_env 1 (ncv ex_solver) (fac_f ex_solver) ex_solver) =
     ex_solver2"
proof -
  have n: "ncv ex_solver = 2" by (simp add: ex_solver_def)
  have r: "[1..<2] = [1 :: nat]" by (simp add: upt_rec)
  have e: "ex_solver\<lparr>fac_f := fac_f ex_solver\<rparr> = ex_solver" by simp
  have "factorize_from ex_env 1 2 (fac_f ex_solver) ex_solver =
      ex_solver2\<lparr>ritz_val := [0, 0], ritz_vec := [[0, 0]]\<rparr>"
    unfolding factorize_from_def for_loop_foldl r e foldl.simps ex_env_step by simp
  then show ?thesis unfolding n by (simp only: ex_solver2_retrieve)
qed

lemma ex_converged:
  "converged (1 / 10000000000) ex_solver2 = (True, ex_solver2\<lparr>ritz_conv := [True]\<rparr>)"
proof -
  have m: "max \<bar>ritz_val ex_solver2 ! 0\<bar> (prec ex_solver2) = 50"
    using ex_prec by (simp add: ex_solver2_def)
  have f: "vec_norm (fac_f ex_solver2) = 0" by (simp add: ex_solver2_def vec_norm_def)
  show ?thesis
    using m f by (simp add: converged_def Let_def ex_solver2_def ex_solver_def)
qed

text \<open>
  An instance: on \<open>diag(50, 25, 7)\<close> the first convergence test succeeds, so
  \<open>compute\<close> with \<open>maxit = 5\<close> returns \<open>1\<close> after one iteration; with \<open>maxit = 0\<close> it
  returns \<open>1\<close> as well, after none.
\<close>

theorem compute_iteration_count_witness:
  "retrieve_ritzpair ex_env (factorize_from ex_env 1 (ncv ex_solver) (fac_f ex_solver) ex_solver) =
     ex_solver2 \<and>
   compute_loop ex_env 5 (1 / 10000000000) 0 ex_solver2 = (0, ex_solver2\<lparr>ritz_conv := [True]\<rparr>) \<and>
   fst (compute ex_env 5 (1 / 10000000000) ex_solver) = 1 \<and>
   iterations_performed ex_env 5 (1 / 10000000000) 0 ex_solver2 = 1 \<and>
   compute_loop ex_env 0 (1 / 10000000000) 0 ex_solver2 = (0, ex_solver2) \<and>
   fst (compute ex_env 0 (1 / 10000000000) ex_solver) = 1 \<and>
   iterations_performed ex_env 0 (1 / 10000000000) 0 ex_solver2 = 0"
proof -
  let ?tol = "1 / 10000000000 :: real"
  have l5: "compute_loop ex_env 5 ?tol 0 ex_solver2 = (0, ex_solver2\<lparr>ritz_conv := [True]\<rparr>)"
    unfolding compute_loop.simps [of ex_env 5 ?tol 0 ex_solver2] ex_converged by simp
  have l0: "compute_loop ex_env 0 ?tol 0 ex_solver2 = (0, ex_solver2)"
    unfolding compute_loop.simps [of ex_env 0 ?tol 0 ex_solver2] by simp
  note T5 = compute_iteration_count [of ex_env ex_solver 5 ?tol ex_solver2,
      unfolded Let_def ex_env_first l5, simplified]
  note T0 = compute_iteration_count [of ex_env ex_solver 0 ?tol ex_solver2,
      unfolded Let_def ex_env_first l0, simplified]
  from T5 have a5: "compute ex_env 5 ?tol ex_solver =
      (1, sort_ritzpair ex_env (ex_solver2\<lparr>ritz_conv := [True]\<rparr>))"
    and e5: "fst (compute ex_env 5 ?tol ex_solver) =
      iterations_performed ex_env 5 ?tol 0 ex_solver2"
    by blast+
  from a5 have a: "fst (compute ex_env 5 ?tol ex_solver) = 1" by simp
  from a e5 have b: "iterations_performed ex_env 5 ?tol 0 ex_solver2 = 1" by simp
  from T0 have a0: "compute ex_env 0 ?tol ex_solver = (1, sort_ritzpair ex_env ex_solver2)"
    and d: "iterations_performed ex_env 0 ?tol 0 ex_solver2 = 0"
    by blast+
  from a0 have c: "fst (compute ex_env 0 ?tol ex_solver) = 1" by simp
  show ?thesis
    using ex_env_first l5 l0 a b c d by blast
qed

section \<open>Construction\<close>

text \<open>
  C9 as amended. The constructor validates nothing: for every operator and all sizes
  \<open>nev \<ge> 0\<close> and \<open>ncv \<ge> 0\<close>, degenerate or not, construction succeeds and
  allocates the state with the dimensions as given. The sizes are the natural numbers of
  the embedding: a negative \<open>nev\<close> or \<open>ncv\<close> is handed to Eigen unchecked as well,
  and what Eigen does with it is not covered.
\<close>

theorem constructor_never_fails:
  "\<exists>s. SymEigsSolver E r op_in nev_in ncv_in = Inr s \<and> dims_ok s \<and>
       nev s = nev_in \<and> ncv s = ncv_in \<and> dim_n s = op_rows E op_in \<and> op s = op_in \<and>
       kind s = SymEigsSolver_kind \<and> rule s = r"
  by (simp add: SymEigsSolver_def dims_ok_def Let_def list_all_length)

text \<open>
  C9 as stated fails: a request with \<open>nev = ncv = n = 2\<close> has \<open>nev \<ge> ncv\<close> and
  \<open>ncv \<ge> n\<close>, a request with \<open>nev = 0\<close> has \<open>nev \<le> 0\<close>, and the construction fails
  for neither.
\<close>

theorem constructor_degenerate_counterexample:
  "op_rows diag_env \<lparr>entries = [1, 2], shift = 0\<rparr> = 2 \<and>
   SymEigsSolver diag_env LARGEST_MAGN \<lparr>entries = [1, 2], shift = 0\<rparr> 2 2
     \<noteq> Inl invalid_argument \<and>
   SymEigsSolver diag_env LARGEST_MAGN \<lparr>entries = [1, 2], shift = 0\<rparr> 0 1
     \<noteq> Inl invalid_argument"
  by (simp add: SymEigsSolver_def diag_env_def)

end
